theory Spec2Isabelle
  imports Main
begin

section \<open>JavaScript strings\<close>

text \<open>
  A JavaScript string is a sequence of UTF-16 code units; it is modelled as a list of
  natural numbers. \<open>js\<close> turns an Isabelle literal into such a list, so that the
  keyword tables of the source can be written as they are.
\<close>

type_synonym jsstring = "nat list"

definition js :: "string \<Rightarrow> jsstring" where
  "js s = map of_char s"

text \<open>\<open>String.prototype.startsWith\<close> and \<open>String.prototype.includes\<close> (named \<open>includes_js\<close> here).\<close>

fun startsWith :: "jsstring \<Rightarrow> jsstring \<Rightarrow> bool" where
  "startsWith t [] = True"
| "startsWith [] (p # ps) = False"
| "startsWith (c # cs) (p # ps) = (c = p \<and> startsWith cs ps)"

fun includes_js :: "jsstring \<Rightarrow> jsstring \<Rightarrow> bool" where
  "includes_js [] p = (p = [])"
| "includes_js (c # cs) p = (startsWith (c # cs) p \<or> includes_js cs p)"

section \<open>The host\<close>

text \<open>
  Two functions of the JavaScript engine are used by the program and are not part of the
  repository; they are parameters of the model, and every function that calls one of them
  takes the host as its first argument.

  \<open>RegExp\<close> is the constructor \<open>new RegExp(p, f)\<close>: it gives \<open>None\<close> where the
  constructor throws a SyntaxError (an invalid pattern or invalid flags) and otherwise the
  predicate \<open>regex.test\<close>.

  \<open>toLowerCase\<close> is \<open>String.prototype.toLowerCase\<close>. It follows the Unicode case
  tables of the engine: it can change the length of a string (U+0130 becomes two code
  units), it maps code units above 255 into Basic Latin (the Kelvin sign U+212A becomes
  \<open>k\<close>), and it depends on the context (a capital sigma becomes a final sigma at the
  end of a word). Nothing is assumed of it, except where a statement says so.
\<close>

type_synonym regexp = "jsstring \<Rightarrow> jsstring \<Rightarrow> (jsstring \<Rightarrow> bool) option"

record host =
  RegExp :: regexp
  toLowerCase :: "jsstring \<Rightarrow> jsstring"

text \<open>
  What \<open>toLowerCase\<close> gives on a string whose code units are all below 256 (Basic
  Latin and Latin-1): the string of the same length in which the letters A..Z and the
  accented capitals 192..222, except the multiplication sign 215, are moved up by 32.
  \<open>lowersLatin1\<close> says of a host that its \<open>toLowerCase\<close> does so.
\<close>

definition lower_unit :: "nat \<Rightarrow> nat" where
  "lower_unit c =
     (if (65 \<le> c \<and> c \<le> 90) \<or> (192 \<le> c \<and> c \<le> 222 \<and> c \<noteq> 215) then c + 32 else c)"

definition lowerLatin1 :: "jsstring \<Rightarrow> jsstring" where
  "lowerLatin1 s = map lower_unit s"

definition latin1 :: "jsstring \<Rightarrow> bool" where
  "latin1 s \<longleftrightarrow> (\<forall>c\<in>set s. c < 256)"

definition lowersLatin1 :: "host \<Rightarrow> bool" where
  "lowersLatin1 H \<longleftrightarrow> (\<forall>s. latin1 s \<longrightarrow> toLowerCase H s = lowerLatin1 s)"

text \<open>
  The host of the examples. Its constructor \<open>RegExp\<close> accepts nothing. Its
  \<open>toLowerCase\<close> is that of JavaScript on the strings made of code units below 256 and
  of the Greek sigmas: a capital sigma U+03A3 (931) becomes the final sigma U+03C2 (962)
  when a cased letter stands before it and none behind it, case-ignorable code units
  skipped on both sides, and the small sigma U+03C3 (963) otherwise. Below 256 the cased
  letters are A..Z, a..z, 170, 181, 186, 192..214, 216..246 and 248..255, and the
  case-ignorable code units are the apostrophe, the full stop, the colon, the circumflex,
  the grave accent, 168, 173, 175, 180, 183 and 184.
\<close>

definition cased :: "nat \<Rightarrow> bool" where
  "cased c \<longleftrightarrow>
     (65 \<le> c \<and> c \<le> 90) \<or> (97 \<le> c \<and> c \<le> 122) \<or> c = 170 \<or> c = 181 \<or> c = 186
     \<or> (192 \<le> c \<and> c \<le> 214) \<or> (216 \<le> c \<and> c \<le> 246) \<or> (248 \<le> c \<and> c \<le> 255)
     \<or> c = 931 \<or> c = 962 \<or> c = 963"

definition caseIgnorable :: "nat \<Rightarrow> bool" where
  "caseIgnorable c \<longleftrightarrow>
     c = 39 \<or> c = 46 \<or> c = 58 \<or> c = 94 \<or> c = 96 \<or> c = 168 \<or> c = 173 \<or> c = 175
     \<or> c = 180 \<or> c = 183 \<or> c = 184"

definition casedFollows :: "jsstring \<Rightarrow> bool" where
  "casedFollows cs = (case dropWhile caseIgnorable cs of [] \<Rightarrow> False | d # ds \<Rightarrow> cased d)"

text \<open>\<open>before\<close>: a cased letter stands before the position, case-ignorable code units skipped.\<close>

fun lowerSigma_from :: "bool \<Rightarrow> jsstring \<Rightarrow> jsstring" where
  "lowerSigma_from before [] = []"
| "lowerSigma_from before (c # cs) =
     (if c = 931 then (if before \<and> \<not> casedFollows cs then 962 else 963) else lower_unit c)
     # lowerSigma_from (if caseIgnorable c then before else cased c) cs"

definition lowerSigma :: "jsstring \<Rightarrow> jsstring" where
  "lowerSigma s = lowerSigma_from False s"

definition demo_host :: host where
  "demo_host = \<lparr> RegExp = (\<lambda>p f. None), toLowerCase = lowerSigma \<rparr>"

section \<open>Analytics (the statistics of the injected agent)\<close>

text \<open>
  \<open>createDefaultStats\<close> of the Analytics module in \<open>main_scripts/cdp-handler.js\<close>.
  The fields \<open>lastConversationUrl\<close> and \<open>lastConversationStats\<close> are never read nor
  written after their creation and are left out. Counters are natural numbers.
\<close>

record stats =
  clicksThisSession :: nat
  blockedThisSession :: nat
  sessionStartTime :: "int option"
  fileEditsThisSession :: nat
  terminalCommandsThisSession :: nat
  actionsWhileAway :: nat
  isWindowFocused :: bool

definition createDefaultStats :: stats where
  "createDefaultStats =
     \<lparr> clicksThisSession = 0, blockedThisSession = 0, sessionStartTime = None,
       fileEditsThisSession = 0, terminalCommandsThisSession = 0, actionsWhileAway = 0,
       isWindowFocused = True \<rparr>"

datatype ActionType = FILE_EDIT | TERMINAL_COMMAND

definition TERMINAL_KEYWORDS :: "jsstring list" where
  "TERMINAL_KEYWORDS = map js [''run'', ''execute'', ''command'', ''terminal'']"

text \<open>
  \<open>categorizeClick\<close>: the loop over the keywords returns at the first keyword the
  lowercased text contains.
\<close>

fun categorize_loop :: "jsstring \<Rightarrow> jsstring list \<Rightarrow> ActionType" where
  "categorize_loop text [] = FILE_EDIT"
| "categorize_loop text (keyword # rest) =
     (if includes_js text keyword then TERMINAL_COMMAND else categorize_loop text rest)"

definition categorizeClick :: "host \<Rightarrow> jsstring \<Rightarrow> ActionType" where
  "categorizeClick H buttonText = categorize_loop (toLowerCase H buttonText) TERMINAL_KEYWORDS"

record click_info =
  category :: ActionType
  isAway :: bool
  totalClicks :: nat

text \<open>
  \<open>trackClick\<close> mutates the statistics record in place and returns a summary; the
  model returns the summary together with the new record.
\<close>

definition trackClick :: "host \<Rightarrow> jsstring \<Rightarrow> stats \<Rightarrow> click_info \<times> stats" where
  "trackClick H buttonText st =
     (let st1 = st\<lparr>clicksThisSession := clicksThisSession st + 1\<rparr>;
          cat = categorizeClick H buttonText;
          st2 = (if cat = TERMINAL_COMMAND
                 then st1\<lparr>terminalCommandsThisSession := terminalCommandsThisSession st1 + 1\<rparr>
                 else st1\<lparr>fileEditsThisSession := fileEditsThisSession st1 + 1\<rparr>);
          away = \<not> isWindowFocused st2;
          st3 = (if away then st2\<lparr>actionsWhileAway := actionsWhileAway st2 + 1\<rparr> else st2)
      in (\<lparr> category = cat, isAway = away, totalClicks = clicksThisSession st3 \<rparr>, st3))"

definition trackBlocked :: "stats \<Rightarrow> stats" where
  "trackBlocked st = st\<lparr>blockedThisSession := blockedThisSession st + 1\<rparr>"

text \<open>A run of \<open>trackClick\<close> calls, one for each button text, in order.\<close>

definition trackClicks :: "host \<Rightarrow> jsstring list \<Rightarrow> stats \<Rightarrow> stats" where
  "trackClicks H texts st = foldl (\<lambda>s t. snd (trackClick H t s)) st texts"

text \<open>The lowercased button text contains one of the four terminal keywords.\<close>

definition hasTerminalKeyword :: "host \<Rightarrow> jsstring \<Rightarrow> bool" where
  "hasTerminalKeyword H buttonText =
     (includes_js (toLowerCase H buttonText) (js ''run'')
      \<or> includes_js (toLowerCase H buttonText) (js ''execute'')
      \<or> includes_js (toLowerCase H buttonText) (js ''command'')
      \<or> includes_js (toLowerCase H buttonText) (js ''terminal''))"

definition balanced :: "stats \<Rightarrow> bool" where
  "balanced st \<longleftrightarrow>
     clicksThisSession st = fileEditsThisSession st + terminalCommandsThisSession st"

section \<open>CDPHandler: connections and command correlation\<close>

text \<open>
  The part of \<open>class CDPHandler\<close> that correlates commands and answers:
  \<open>connectToPage\<close> (the four socket handlers) and \<open>sendCommand\<close>.

  The handler object holds \<open>connections\<close> (a Map from page id to
  \<open>{ws, injected}\<close>), the counter \<open>messageId\<close> (1 in the constructor) and
  \<open>pendingMessages\<close>, one Map for all connections, from command id to the
  \<open>{resolve, reject}\<close> pair of that command's promise. A pair is determined by the id
  it is stored under, so the Map is modelled by its set of keys, and each call of a stored
  \<open>resolve\<close> or \<open>reject\<close> is appended to the log \<open>settled\<close> under that id.

  The environment is part of the state: \<open>clock\<close> is the time in milliseconds,
  \<open>timers\<close> holds the \<open>setTimeout\<close> callbacks not yet run (by the command id each
  closes over, with the time it becomes due), and \<open>sent\<close> logs what \<open>ws.send\<close>
  transmitted (page, command id, time). Ids are unbounded naturals. \<open>ws.send\<close> is
  taken not to throw: it is called on a socket just seen OPEN, with plain data.
\<close>

type_synonym page_id = string

record connection =
  wsOpen :: bool
  injected :: bool

datatype outcome = Resolved string | Rejected string

record message =
  msg_id :: nat
  msg_error :: "string option"
  msg_result :: string

record handler =
  connections :: "page_id \<rightharpoonup> connection"
  messageId :: nat
  pendingMessages :: "nat set"
  settled :: "(nat \<times> outcome) list"
  timers :: "nat \<rightharpoonup> int"
  clock :: int
  sent :: "(page_id \<times> nat \<times> int) list"

definition new_CDPHandler :: "int \<Rightarrow> handler" where
  "new_CDPHandler t =
     \<lparr> connections = Map.empty, messageId = 1, pendingMessages = {}, settled = [],
       timers = Map.empty, clock = t, sent = [] \<rparr>"

text \<open>
  \<open>sendCommand(pageId, method, params)\<close>. Without a connection whose socket is OPEN
  the call returns \<open>Promise.reject('dead')\<close> and takes no id: the model returns
  \<open>None\<close>. Otherwise it takes the next id, stores the pending entry, transmits, and
  arms a timer of 2000 ms; the model returns the id.
\<close>

definition sendCommand :: "page_id \<Rightarrow> handler \<Rightarrow> nat option \<times> handler" where
  "sendCommand pageId h =
     (case connections h pageId of
        None \<Rightarrow> (None, h)
      | Some conn \<Rightarrow>
          if \<not> wsOpen conn then (None, h)
          else
            let i = messageId h in
            (Some i,
             h\<lparr> messageId := i + 1,
                pendingMessages := insert i (pendingMessages h),
                sent := sent h @ [(pageId, i, clock h)],
                timers := (timers h)(i \<mapsto> clock h + 2000) \<rparr>))"

text \<open>
  The callback of that timer:
  \<open>if (this.pendingMessages.has(id)) { this.pendingMessages.delete(id); reject(new Error('timeout')); }\<close>
\<close>

definition timeoutCallback :: "nat \<Rightarrow> handler \<Rightarrow> handler" where
  "timeoutCallback i h =
     (if i \<in> pendingMessages h
      then h\<lparr> pendingMessages := pendingMessages h - {i},
              settled := settled h @ [(i, Rejected ''timeout'')] \<rparr>
      else h)"

text \<open>
  The \<open>message\<close> handler. \<open>None\<close> is data on which \<open>JSON.parse\<close> or the
  property access throws: the \<open>catch\<close> swallows it. \<open>msg_id\<close> is 0 for a message whose
  \<open>id\<close> is absent, falsy or not a number (no key of the Map equals it); \<open>msg_error\<close>
  is the message of a truthy \<open>msg.error\<close>.
\<close>

definition onMessage :: "message option \<Rightarrow> handler \<Rightarrow> handler" where
  "onMessage data h =
     (case data of
        None \<Rightarrow> h
      | Some msg \<Rightarrow>
          if msg_id msg \<noteq> 0 \<and> msg_id msg \<in> pendingMessages h
          then h\<lparr> pendingMessages := pendingMessages h - {msg_id msg},
                  settled := settled h @
                    [(msg_id msg,
                      case msg_error msg of
                        Some e \<Rightarrow> Rejected e
                      | None \<Rightarrow> Resolved (msg_result msg))] \<rparr>
          else h)"

text \<open>The \<open>open\<close>, \<open>error\<close> and \<open>close\<close> handlers.\<close>

definition onOpen :: "page_id \<Rightarrow> handler \<Rightarrow> handler" where
  "onOpen pageId h =
     h\<lparr> connections := (connections h)(pageId \<mapsto> \<lparr> wsOpen = True, injected = False \<rparr>) \<rparr>"

definition onError :: "page_id \<Rightarrow> handler \<Rightarrow> handler" where
  "onError pageId h = h\<lparr> connections := (connections h)(pageId := None) \<rparr>"

definition onClose :: "page_id \<Rightarrow> handler \<Rightarrow> handler" where
  "onClose pageId h = h\<lparr> connections := (connections h)(pageId := None) \<rparr>"

text \<open>
  What can happen to a handler, one event at a time, as on the single-threaded event
  loop: a call of \<open>sendCommand\<close>, a socket event, time passing, and the event loop
  running the timer of a command (only once it is due; it then leaves \<open>timers\<close>).
  \<open>WsClosing\<close> is the socket of a page leaving the OPEN state before its \<open>close\<close>
  event is delivered.
\<close>

datatype event =
    SendCommand page_id
  | WsOpen page_id
  | WsMessage "message option"
  | WsError page_id
  | WsClosing page_id
  | WsClose page_id
  | Elapse nat
  | RunTimer nat

fun step :: "event \<Rightarrow> handler \<Rightarrow> handler" where
  "step (SendCommand p) h = snd (sendCommand p h)"
| "step (WsOpen p) h = onOpen p h"
| "step (WsMessage data) h = onMessage data h"
| "step (WsError p) h = onError p h"
| "step (WsClosing p) h =
     (case connections h p of
        None \<Rightarrow> h
      | Some conn \<Rightarrow> h\<lparr> connections := (connections h)(p \<mapsto> conn\<lparr> wsOpen := False \<rparr>) \<rparr>)"
| "step (WsClose p) h = onClose p h"
| "step (Elapse d) h = h\<lparr> clock := clock h + int d \<rparr>"
| "step (RunTimer i) h =
     (case timers h i of
        None \<Rightarrow> h
      | Some due \<Rightarrow>
          if due \<le> clock h then timeoutCallback i (h\<lparr> timers := (timers h)(i := None) \<rparr>)
          else h)"

definition run :: "event list \<Rightarrow> handler \<Rightarrow> handler" where
  "run evs h = foldl (\<lambda>s e. step e s) h evs"

text \<open>How many times the promise of command \<open>i\<close> has been resolved or rejected.\<close>

definition completions :: "handler \<Rightarrow> nat \<Rightarrow> nat" where
  "completions h i = count_list (map fst (settled h)) i"

text \<open>What the answer \<open>msg\<close> settles its command with.\<close>

definition answer :: "message \<Rightarrow> outcome" where
  "answer msg = (case msg_error msg of Some e \<Rightarrow> Rejected e | None \<Rightarrow> Resolved (msg_result msg))"

text \<open>
  The invariant of the correlation table: ids start at 1; a pending command has an id
  already given out, still has its timer, and has not been settled; a settled command has
  an id already given out and is in the log once; every id given out is pending or settled.
\<close>

definition correlated :: "handler \<Rightarrow> bool" where
  "correlated h \<longleftrightarrow>
     1 \<le> messageId h
   \<and> (\<forall>i\<in>pendingMessages h.
         1 \<le> i \<and> i < messageId h \<and> timers h i \<noteq> None \<and> i \<notin> fst ` set (settled h))
   \<and> (\<forall>i\<in>fst ` set (settled h). 1 \<le> i \<and> i < messageId h)
   \<and> distinct (map fst (settled h))
   \<and> (\<forall>i. 1 \<le> i \<and> i < messageId h \<longrightarrow> i \<in> pendingMessages h \<or> i \<in> fst ` set (settled h))"

text \<open>
  Every timer not yet run is due 2000 ms after its command was transmitted, which was
  not in the future.
\<close>

definition timed :: "handler \<Rightarrow> bool" where
  "timed h \<longleftrightarrow>
     (\<forall>i due. timers h i = Some due \<longrightarrow>
        (\<exists>p s. (p, i, s) \<in> set (sent h) \<and> due = s + 2000 \<and> s \<le> clock h))"

text \<open>
  An event that delivers an answer carrying the id \<open>i\<close>; a command that no such event
  follows is either still waiting (pending, timer armed, not settled) or timed out (evicted
  and rejected once, with the error \<open>timeout\<close>).
\<close>

fun answers :: "nat \<Rightarrow> event \<Rightarrow> bool" where
  "answers i (WsMessage (Some msg)) = (msg_id msg = i)"
| "answers i e = False"

definition awaiting :: "nat \<Rightarrow> handler \<Rightarrow> bool" where
  "awaiting i h \<longleftrightarrow> i \<in> pendingMessages h \<and> timers h i \<noteq> None \<and> completions h i = 0"

definition timed_out :: "nat \<Rightarrow> handler \<Rightarrow> bool" where
  "timed_out i h \<longleftrightarrow>
     i \<notin> pendingMessages h \<and> timers h i = None \<and> (i, Rejected ''timeout'') \<in> set (settled h)
     \<and> completions h i = 1"

text \<open>
  A run with two commands on one page: the second is answered first, the first gets no
  answer within 2000 ms, its timer runs, and an answer for it arrives afterwards.
\<close>

definition demo_events :: "event list" where
  "demo_events =
     [WsOpen ''p1'', SendCommand ''p1'', SendCommand ''p1'',
      WsMessage (Some \<lparr> msg_id = 2, msg_error = None, msg_result = ''ok'' \<rparr>),
      Elapse 2000, RunTimer 1,
      WsMessage (Some \<lparr> msg_id = 1, msg_error = None, msg_result = ''late'' \<rparr>),
      RunTimer 2]"

text \<open>
  A command is sent on a page, and the socket of the page closes before any answer; then
  2000 ms pass and the timer of the command runs.
\<close>

definition close_events :: "event list" where
  "close_events = [WsOpen ''p1'', SendCommand ''p1'', WsClose ''p1'']"

definition after_close :: "event list" where
  "after_close = [Elapse 2000, RunTimer 1]"

section \<open>Text normalisation of the click classifier\<close>

text \<open>
  White space as \<open>String.prototype.trim\<close> and the class \<open>\s\<close> of a regular
  expression have it: tab, line feed, vertical tab, form feed, carriage return, space,
  U+00A0, U+1680, U+2000..U+200A, U+2028, U+2029, U+202F, U+205F, U+3000 and U+FEFF.
\<close>

definition isWhiteSpace :: "nat \<Rightarrow> bool" where
  "isWhiteSpace c \<longleftrightarrow>
     (9 \<le> c \<and> c \<le> 13) \<or> c = 32 \<or> c = 160 \<or> c = 5760 \<or> (8192 \<le> c \<and> c \<le> 8202)
     \<or> c = 8232 \<or> c = 8233 \<or> c = 8239 \<or> c = 8287 \<or> c = 12288 \<or> c = 65279"

definition trim :: "jsstring \<Rightarrow> jsstring" where
  "trim s = rev (dropWhile isWhiteSpace (rev (dropWhile isWhiteSpace s)))"

text \<open>The class \<open>\w\<close>: digits, letters of Basic Latin and the underscore.\<close>

definition isWordChar :: "nat \<Rightarrow> bool" where
  "isWordChar c \<longleftrightarrow>
     (48 \<le> c \<and> c \<le> 57) \<or> (65 \<le> c \<and> c \<le> 90) \<or> c = 95 \<or> (97 \<le> c \<and> c \<le> 122)"

text \<open>
  The keyboard hint \<open>/\s*(alt|ctrl|cmd|shift)\s*\+\s*\w+/gi\<close>. \<open>match_hint s\<close> is
  the length of its match anchored at the start of \<open>s\<close>, if there is one. Every
  quantifier of the expression is followed by something its class excludes, and no
  alternative is a prefix of another, so the greedy match is the only one: skip white
  space, read one keyword (in any letter case), skip white space, read \<open>+\<close> (code unit
  43), skip white space, read a non-empty run of word characters. Under the flag
  \<open>i\<close> a letter of a keyword matches itself and its capital and no other code
  unit, which is what the comparison after \<open>lowerLatin1\<close> gives.
\<close>

definition HINT_KEYS :: "jsstring list" where
  "HINT_KEYS = map js [''alt'', ''ctrl'', ''cmd'', ''shift'']"

definition match_hint :: "jsstring \<Rightarrow> nat option" where
  "match_hint s =
     (let s1 = dropWhile isWhiteSpace s in
      case find (\<lambda>k. startsWith (lowerLatin1 s1) k) HINT_KEYS of
        None \<Rightarrow> None
      | Some k \<Rightarrow>
          (case dropWhile isWhiteSpace (drop (length k) s1) of
             [] \<Rightarrow> None
           | c # s3 \<Rightarrow>
               if c \<noteq> 43 then None
               else
                 let s4 = dropWhile isWhiteSpace s3;
                     w = takeWhile isWordChar s4
                 in if w = [] then None else Some (length s - length s4 + length w)))"

text \<open>
  \<open>text.replace(hint, '')\<close> with the flag \<open>g\<close>: the leftmost match is deleted and
  the search goes on behind it. A match has at least five code units, so after a match of
  length \<open>n\<close> at \<open>c # cs\<close> the rest is \<open>drop (n - 1) cs\<close>.
\<close>

fun strip_hints :: "jsstring \<Rightarrow> jsstring" where
  "strip_hints [] = []"
| "strip_hints (c # cs) =
     (case match_hint (c # cs) of
        Some n \<Rightarrow> strip_hints (drop (n - 1) cs)
      | None \<Rightarrow> c # strip_hints cs)"

text \<open>\<open>text.replace(/[\u200B-\u200D\uFEFF]/g, '')\<close>.\<close>

definition removeZeroWidth :: "jsstring \<Rightarrow> jsstring" where
  "removeZeroWidth s = filter (\<lambda>c. \<not> (8203 \<le> c \<and> c \<le> 8205) \<and> c \<noteq> 65279) s"

text \<open>\<open>text.replace(/\s+/g, ' ')\<close>: every maximal run of white space becomes one space.\<close>

function collapseSpaces :: "jsstring \<Rightarrow> jsstring" where
  "collapseSpaces [] = []"
| "collapseSpaces (c # cs) =
     (if isWhiteSpace c then 32 # collapseSpaces (dropWhile isWhiteSpace cs)
      else c # collapseSpaces cs)"
  by pat_completeness auto
termination
  by (relation "measure length") (auto simp: less_Suc_eq_le length_dropWhile_le)

text \<open>The first lines of \<open>isAcceptButton\<close>: from \<open>el.textContent\<close> to \<open>text\<close>.\<close>

definition normalizeText :: "host \<Rightarrow> jsstring \<Rightarrow> jsstring" where
  "normalizeText H textContent =
     (let rawText = toLowerCase H (trim textContent);
          text1 = trim (strip_hints rawText);
          text2 = removeZeroWidth text1
      in collapseSpaces text2)"

section \<open>The banned-command filter\<close>

text \<open>
  \<open>window.__autoAcceptState\<close>. The field \<open>startTimes\<close> is created empty and never
  used; it is left out. \<open>currentMode\<close> is \<open>null\<close> and \<open>isBackgroundMode\<close> is undefined
  until the first start.
\<close>

record agent_state =
  isRunning :: bool
  tabNames :: "jsstring list"
  completionStatus :: "jsstring \<rightharpoonup> jsstring"
  sessionID :: nat
  currentMode :: "jsstring option"
  isBackgroundMode :: "bool option"
  bannedCommands :: "jsstring list"
  stats :: stats

text \<open>
  The state \<open>Analytics.initialize\<close> creates in a page that has none; the session start
  time is the time of the initialisation.
\<close>

definition initialState :: "int \<Rightarrow> agent_state" where
  "initialState now =
     \<lparr> isRunning = False, tabNames = [], completionStatus = Map.empty, sessionID = 0,
       currentMode = None, isBackgroundMode = None, bannedCommands = [],
       stats = createDefaultStats\<lparr> isWindowFocused := True, sessionStartTime := Some now \<rparr> \<rparr>"

text \<open>\<open>pattern.lastIndexOf('/')\<close>: the last position of the code unit, or -1.\<close>

definition lastIndexOf :: "jsstring \<Rightarrow> nat \<Rightarrow> int" where
  "lastIndexOf s c =
     (if c \<in> set s then int (length s) - 1 - int (length (takeWhile (\<lambda>x. x \<noteq> c) (rev s)))
      else - 1)"

text \<open>
  A pattern is read as a regular expression when
  \<open>pattern.startsWith('/') && pattern.lastIndexOf('/') > 0\<close>; then
  \<open>pattern.substring(1, lastSlash)\<close> is the expression and
  \<open>pattern.substring(lastSlash + 1) || 'i'\<close> are the flags.
\<close>

definition isRegexForm :: "jsstring \<Rightarrow> bool" where
  "isRegexForm pattern \<longleftrightarrow> startsWith pattern (js ''/'') \<and> lastIndexOf pattern 47 > 0"

definition regexPattern :: "jsstring \<Rightarrow> jsstring" where
  "regexPattern pattern = take (nat (lastIndexOf pattern 47) - 1) (drop 1 pattern)"

definition regexFlags :: "jsstring \<Rightarrow> jsstring" where
  "regexFlags pattern =
     (let f = drop (nat (lastIndexOf pattern 47) + 1) pattern in if f = [] then js ''i'' else f)"

definition blocked :: "agent_state \<Rightarrow> agent_state" where
  "blocked st = st\<lparr> stats := trackBlocked (stats st) \<rparr>"

text \<open>
  The loop of \<open>isCommandBanned\<close> over the banned list. A blank pattern is skipped. The
  \<open>catch\<close> of the source is the branch where the constructor gives \<open>None\<close>. Each
  \<open>return true\<close> comes after \<open>Analytics.trackBlocked\<close>.
\<close>

fun banned_loop :: "host \<Rightarrow> jsstring \<Rightarrow> jsstring list \<Rightarrow> agent_state \<Rightarrow> bool \<times> agent_state" where
  "banned_loop H commandText [] st = (False, st)"
| "banned_loop H commandText (banned # rest) st =
     (let pattern = trim banned;
          lowerText = toLowerCase H commandText
      in if pattern = [] then banned_loop H commandText rest st
         else if isRegexForm pattern then
           (case RegExp H (regexPattern pattern) (regexFlags pattern) of
              Some test \<Rightarrow>
                if test commandText then (True, blocked st)
                else banned_loop H commandText rest st
            | None \<Rightarrow>
                if includes_js lowerText (toLowerCase H pattern) then (True, blocked st)
                else banned_loop H commandText rest st)
         else if includes_js lowerText (toLowerCase H pattern) then (True, blocked st)
         else banned_loop H commandText rest st)"

definition isCommandBanned :: "host \<Rightarrow> jsstring \<Rightarrow> agent_state \<Rightarrow> bool \<times> agent_state" where
  "isCommandBanned H commandText st =
     (if bannedCommands st = [] then (False, st)
      else if commandText = [] then (False, st)
      else banned_loop H commandText (bannedCommands st) st)"

text \<open>
  The two-argument view of the specification: the verdict on a text for a pattern list
  (installed as the banned list of a freshly initialised state).
\<close>

definition isBanned :: "host \<Rightarrow> jsstring \<Rightarrow> jsstring list \<Rightarrow> bool" where
  "isBanned H text patterns =
     fst (isCommandBanned H text ((initialState 0)\<lparr> bannedCommands := patterns \<rparr>))"

text \<open>
  \<open>pattern\<close> occurs in \<open>text\<close> as a case-insensitive substring, for strings of
  code units below 256: some stretch of \<open>text\<close> of the length of \<open>pattern\<close> is
  \<open>pattern\<close> up to the case of its letters.
\<close>

definition occurs_ci :: "jsstring \<Rightarrow> jsstring \<Rightarrow> bool" where
  "occurs_ci pattern text \<longleftrightarrow>
     (\<exists>before u after. text = before @ u @ after \<and> lowerLatin1 u = lowerLatin1 pattern)"

text \<open>
  The verdict of one pass of the loop on one entry of the banned list, where it does not
  go on to the next entry.
\<close>

definition pattern_matches :: "host \<Rightarrow> jsstring \<Rightarrow> jsstring \<Rightarrow> bool" where
  "pattern_matches H commandText banned \<longleftrightarrow>
     trim banned \<noteq> [] \<and>
     (if isRegexForm (trim banned)
      then (case RegExp H (regexPattern (trim banned)) (regexFlags (trim banned)) of
              Some test \<Rightarrow> test commandText
            | None \<Rightarrow> includes_js (toLowerCase H commandText) (toLowerCase H (trim banned)))
      else includes_js (toLowerCase H commandText) (toLowerCase H (trim banned)))"

section \<open>The click classifier and the click pass\<close>

text \<open>
  What the classifier reads of a DOM element: its identity (the key of the WeakMap
  \<open>clickedTimestamps\<close>), its \<open>textContent\<close>, the text that
  \<open>findNearbyCommandText\<close> collects around it (a walk over the siblings and
  ancestors of the element, taken here as given), and the four observations of
  \<open>isVisible\<close>.
\<close>

record element =
  el_id :: nat
  textContent :: jsstring
  nearbyCommandText :: jsstring
  displayNone :: bool
  widthPositive :: bool
  pointerEventsNone :: bool
  disabled :: bool

definition ACCEPT_PATTERNS :: "jsstring list" where
  "ACCEPT_PATTERNS =
     map js [''accept'', ''run'', ''retry'', ''apply'', ''execute'', ''confirm'', ''allow once'',
             ''allow'', ''ok'', ''yes'', ''continue'', ''proceed'', ''approve'', ''submit'',
             ''save'', ''done'']"

definition REJECTS :: "jsstring list" where
  "REJECTS =
     map js [''skip'', ''reject'', ''cancel'', ''close'', ''refine'', ''dismiss'', ''no'',
             ''decline'', ''deny'', ''back'', ''undo'', ''revert'']"

text \<open>\<open>list.some(k => text.includes(k))\<close>.\<close>

definition some_included :: "jsstring \<Rightarrow> jsstring list \<Rightarrow> bool" where
  "some_included text keys = list_ex (\<lambda>k. includes_js text k) keys"

text \<open>
  \<open>isAcceptButton(el)\<close>. The result comes with the state, since the banned-command
  check counts a blocked command.
\<close>

definition isAcceptButton :: "host \<Rightarrow> element \<Rightarrow> agent_state \<Rightarrow> bool \<times> agent_state" where
  "isAcceptButton H el st =
     (let text = normalizeText H (textContent el) in
      if length text = 0 \<or> length text > 50 then (False, st)
      else if some_included text REJECTS then (False, st)
      else if \<not> some_included text ACCEPT_PATTERNS then (False, st)
      else
        let isCommandButton =
              (includes_js text (js ''run command'') \<or> includes_js text (js ''execute'')
               \<or> includes_js text (js ''run''));
            isVisible =
              (\<not> displayNone el \<and> widthPositive el \<and> \<not> pointerEventsNone el \<and> \<not> disabled el)
        in if isCommandButton
           then (case isCommandBanned H (nearbyCommandText el) st of
                   (True, st') \<Rightarrow> (False, st')
                 | (False, st') \<Rightarrow> (isVisible, st'))
           else (isVisible, st))"

text \<open>
  The world of the injected script in one page: the state object, the loop bodies that
  were launched and have not ended (with the session id each was launched for), the
  click passes in flight (calls of \<open>performClick\<close> that have not finished, each with
  the value of \<open>Date.now()\<close> it read and the elements, by their identity, it has
  still to visit), the
  overlay, the WeakMap \<open>clickedTimestamps\<close> from elements to the time of their last
  click, and the log of the elements clicked.
\<close>

datatype loop_kind = CursorLoop | AntigravityLoop | StaticLoop

type_synonym click_pass = "int \<times> nat list"

record page =
  state :: agent_state
  loops :: "(loop_kind \<times> nat) list"
  passes :: "click_pass list"
  overlay :: bool
  clickedTimestamps :: "nat \<rightharpoonup> int"
  clickLog :: "nat list"

definition CLICK_COOLDOWN_MS :: int where
  "CLICK_COOLDOWN_MS = 5000"

text \<open>
  The guard at the head of the loop of \<open>performClick\<close>:
  \<open>lastClickTime && (now - lastClickTime) < CLICK_COOLDOWN_MS\<close>. A missing entry
  and the number 0 are falsy.
\<close>

definition inCooldown :: "int \<Rightarrow> element \<Rightarrow> page \<Rightarrow> bool" where
  "inCooldown now el pg =
     (case clickedTimestamps pg (el_id el) of
        None \<Rightarrow> False
      | Some lastClickTime \<Rightarrow> lastClickTime \<noteq> 0 \<and> now - lastClickTime < CLICK_COOLDOWN_MS)"

text \<open>
  One pass of that loop, for one element: the number of clicks verified (0 or 1) and
  the page afterwards. The click is tracked whether or not the element disappears.
\<close>

definition clickElement :: "host \<Rightarrow> int \<Rightarrow> element \<Rightarrow> page \<Rightarrow> nat \<times> page" where
  "clickElement H now el pg =
     (if inCooldown now el pg then (0, pg)
      else
        case isAcceptButton H el (state pg) of
          (False, st') \<Rightarrow> (0, pg\<lparr> state := st' \<rparr>)
        | (True, st') \<Rightarrow>
            let buttonText = trim (textContent el) in
            (1, pg\<lparr> clickedTimestamps := (clickedTimestamps pg)(el_id el \<mapsto> now),
                    clickLog := clickLog pg @ [el_id el],
                    state := st'\<lparr> stats := snd (trackClick H buttonText (stats st')) \<rparr> \<rparr>))"

text \<open>\<open>[...new Set(found)]\<close>: each element once, at its first position.\<close>

fun uniqueFound :: "nat list \<Rightarrow> element list \<Rightarrow> element list" where
  "uniqueFound seen [] = []"
| "uniqueFound seen (el # els) =
     (if el_id el \<in> set seen then uniqueFound seen els
      else el # uniqueFound (el_id el # seen) els)"

fun clickAll :: "host \<Rightarrow> int \<Rightarrow> element list \<Rightarrow> page \<Rightarrow> nat \<times> page" where
  "clickAll H now [] pg = (0, pg)"
| "clickAll H now (el # els) pg =
     (case clickElement H now el pg of
        (v, pg') \<Rightarrow> (case clickAll H now els pg' of (vs, pg'') \<Rightarrow> (v + vs, pg'')))"

text \<open>
  \<open>performClick(selectors)\<close>, given the elements the selectors find and the value of
  \<open>Date.now()\<close> at the start of the pass, when nothing else happens in the page
  during the pass.
\<close>

definition performClick :: "host \<Rightarrow> int \<Rightarrow> element list \<Rightarrow> page \<Rightarrow> nat \<times> page" where
  "performClick H now found pg = clickAll H now (uniqueFound [] found) pg"

section \<open>The session: start, stop and the loops\<close>

text \<open>
  The configuration pushed to \<open>__autoAcceptStart\<close>. \<open>cfg_bannedCommands\<close> is
  \<open>None\<close> when the field is absent.
\<close>

record config =
  cfg_ide :: jsstring
  cfg_isBackgroundMode :: bool
  cfg_pollInterval :: nat
  cfg_bannedCommands :: "jsstring list option"

text \<open>\<open>(config.ide || 'cursor').toLowerCase()\<close>: the empty string is falsy.\<close>

definition ideOf :: "host \<Rightarrow> config \<Rightarrow> jsstring" where
  "ideOf H cfg = toLowerCase H (if cfg_ide cfg = [] then js ''cursor'' else cfg_ide cfg)"

definition updateBannedCommands :: "jsstring list \<Rightarrow> page \<Rightarrow> page" where
  "updateBannedCommands bannedList pg = pg\<lparr> state := (state pg)\<lparr> bannedCommands := bannedList \<rparr> \<rparr>"

text \<open>
  The first step of \<open>__autoAcceptStart\<close>:
  \<open>if (config.bannedCommands) window.__autoAcceptUpdateBannedCommands(config.bannedCommands)\<close>.
\<close>

definition pushBannedCommands :: "config \<Rightarrow> page \<Rightarrow> page" where
  "pushBannedCommands cfg pg =
     (case cfg_bannedCommands cfg of
        None \<Rightarrow> pg
      | Some bannedList \<Rightarrow> updateBannedCommands bannedList pg)"

text \<open>The test \<open>Already running with same config\<close> of \<open>__autoAcceptStart\<close>.\<close>

definition sameConfig :: "host \<Rightarrow> config \<Rightarrow> page \<Rightarrow> bool" where
  "sameConfig H cfg pg \<longleftrightarrow>
     isRunning (state pg) \<and> currentMode (state pg) = Some (ideOf H cfg)
     \<and> isBackgroundMode (state pg) = Some (cfg_isBackgroundMode cfg)"

text \<open>
  \<open>window.__autoAcceptStart(config)\<close>, called at time \<open>now\<close>. The loop a start
  launches is appended to \<open>loops\<close> with the new session id. The configuration is
  an object with a string \<open>ide\<close>, as the extension sends it, and the overlay functions
  are taken not to throw, so the \<open>catch\<close> of the source is never entered.
\<close>

definition autoAcceptStart :: "host \<Rightarrow> config \<Rightarrow> int \<Rightarrow> page \<Rightarrow> page" where
  "autoAcceptStart H cfg now pg0 =
     (let ide = ideOf H cfg;
          isBG = cfg_isBackgroundMode cfg;
          pg = pushBannedCommands cfg pg0
      in if sameConfig H cfg pg then pg
         else
           let st = state pg;
               sid = sessionID st + 1;
               st1 = st\<lparr> isRunning := True, currentMode := Some ide,
                         isBackgroundMode := Some isBG, sessionID := sid \<rparr>;
               st2 = (if sessionStartTime (stats st1) = None \<or> sessionStartTime (stats st1) = Some 0
                      then st1\<lparr> stats := (stats st1)\<lparr> sessionStartTime := Some now \<rparr> \<rparr>
                      else st1)
           in if isBG
              then pg\<lparr> state := st2, overlay := True,
                       loops := loops pg @
                         [(if ide = js ''cursor'' then CursorLoop else AntigravityLoop, sid)] \<rparr>
              else pg\<lparr> state := st2, overlay := False,
                       loops := loops pg @ [(StaticLoop, sid)] \<rparr>)"

definition autoAcceptStop :: "page \<Rightarrow> page" where
  "autoAcceptStop pg = pg\<lparr> state := (state pg)\<lparr> isRunning := False \<rparr>, overlay := False \<rparr>"

text \<open>The other entry points that write the state.\<close>

definition resetStats :: "int \<Rightarrow> page \<Rightarrow> page" where
  "resetStats now pg =
     pg\<lparr> state := (state pg)\<lparr> stats := (stats (state pg))
        \<lparr> clicksThisSession := 0, blockedThisSession := 0, sessionStartTime := Some now \<rparr> \<rparr> \<rparr>"

definition getAwayActions :: "page \<Rightarrow> page" where
  "getAwayActions pg =
     pg\<lparr> state := (state pg)\<lparr> stats := (stats (state pg))\<lparr> actionsWhileAway := 0 \<rparr> \<rparr> \<rparr>"

definition setFocusState :: "bool \<Rightarrow> page \<Rightarrow> page" where
  "setFocusState isFocused pg =
     pg\<lparr> state := (state pg)\<lparr> stats := (stats (state pg))\<lparr> isWindowFocused := isFocused \<rparr> \<rparr> \<rparr>"

text \<open>
  The condition of the \<open>while\<close> of the three loop bodies:
  \<open>state.isRunning && state.sessionID === sid\<close>.
\<close>

definition loopGuard :: "nat \<Rightarrow> page \<Rightarrow> bool" where
  "loopGuard sid pg \<longleftrightarrow> isRunning (state pg) \<and> sessionID (state pg) = sid"

text \<open>
  \<open>performClick\<close> is an \<open>async\<close> function that waits after each click
  (\<open>await waitForDisappear(el)\<close>), so the rest of the page goes on during a pass: the
  entry points can be called, and other loop bodies and other passes can run. A call of
  \<open>performClick\<close> is therefore a pass put in flight, and the pass visits its elements
  one event at a time. \<open>startPass\<close> is the call: it reads the time and collects the
  elements. \<open>passStep\<close> is the pass \<open>j\<close> visiting its next element, or finishing
  when none is left; \<open>seen\<close> is what the classifier reads of that element at the time
  of the visit. The step for one element is taken as a whole: the guard, the classifier,
  the click, and the tracking that follows the click after the wait. \<open>passThrows\<close> is
  a pass ending by an exception.
\<close>

definition startPass :: "int \<Rightarrow> element list \<Rightarrow> page \<Rightarrow> page" where
  "startPass now found pg =
     pg\<lparr> passes := passes pg @ [(now, map el_id (uniqueFound [] found))] \<rparr>"

definition passStep :: "host \<Rightarrow> nat \<Rightarrow> element \<Rightarrow> page \<Rightarrow> page" where
  "passStep H j seen pg =
     (if j < length (passes pg)
      then (case passes pg ! j of
              (now, []) \<Rightarrow> pg\<lparr> passes := take j (passes pg) @ drop (Suc j) (passes pg) \<rparr>
            | (now, i # ids) \<Rightarrow>
                (snd (clickElement H now (seen\<lparr> el_id := i \<rparr>) pg))
                  \<lparr> passes := (passes pg)[j := (now, ids)] \<rparr>)
      else pg)"

definition passThrows :: "nat \<Rightarrow> page \<Rightarrow> page" where
  "passThrows j pg = pg\<lparr> passes := take j (passes pg) @ drop (Suc j) (passes pg) \<rparr>"

text \<open>
  What one cycle of a loop body reads from the document: the time, the elements its
  selectors find, whether a Good/Bad badge is shown, the tab names \<open>updateTabNames\<close>
  computes, the tab, if any, that \<open>updateConversationCompletionState\<close> marks as
  done, and whether the cycle ends in an exception. The loop bodies have no
  \<open>try\<close>: in \<open>cursorLoop\<close> and \<open>antigravityLoop\<close> an exception in the
  cycle, for instance of the awaited \<open>performClick\<close> or of \<open>updateOverlay\<close>
  (whose \<open>querySelector\<close> is given a selector built from a tab name, and throws on
  a name with a double quote or a line break), ends the loop body, with \<open>isRunning\<close>
  and \<open>sessionID\<close> as they are. The static loop does not await its
  \<open>performClick\<close> and calls nothing else that can throw.

  The cycle of a loop body puts a pass in flight and writes the tab names and the
  completion status, and nothing else of the state; it is modelled as one step at the
  head of the \<open>while\<close>. The pass it puts in flight runs by \<open>passStep\<close>; what the
  cycle writes after its pass (the tab names, the completion status, the end by an
  exception) touches nothing a pass reads or writes, and is written in that one step. The
  model lets a loop body arrive at the head of its \<open>while\<close> before its pass has
  finished, which \<open>cursorLoop\<close> and \<open>antigravityLoop\<close> do not do: it has the
  runs of the program and more.
\<close>

record dom_view =
  dv_now :: int
  dv_found :: "element list"
  dv_hasBadge :: bool
  dv_tabNames :: "jsstring list"
  dv_done :: "jsstring option"
  dv_throws :: bool

definition updateTabNames :: "jsstring list \<Rightarrow> page \<Rightarrow> page" where
  "updateTabNames names pg =
     (if tabNames (state pg) \<noteq> names then pg\<lparr> state := (state pg)\<lparr> tabNames := names \<rparr> \<rparr> else pg)"

definition markDone :: "jsstring \<Rightarrow> page \<Rightarrow> page" where
  "markDone tabName pg =
     pg\<lparr> state := (state pg)
        \<lparr> completionStatus := (completionStatus (state pg))(tabName \<mapsto> js ''done'') \<rparr> \<rparr>"

fun loopCycle :: "loop_kind \<Rightarrow> dom_view \<Rightarrow> page \<Rightarrow> page" where
  "loopCycle CursorLoop dv pg =
     updateTabNames (dv_tabNames dv) (startPass (dv_now dv) (dv_found dv) pg)"
| "loopCycle AntigravityLoop dv pg =
     (let pg1 = (if dv_hasBadge dv then pg else startPass (dv_now dv) (dv_found dv) pg);
          pg2 = updateTabNames (dv_tabNames dv) pg1
      in case dv_done dv of None \<Rightarrow> pg2 | Some tabName \<Rightarrow> markDone tabName pg2)"
| "loopCycle StaticLoop dv pg = startPass (dv_now dv) (dv_found dv) pg"

text \<open>The cycle of the loop body ends in an exception that nothing catches.\<close>

definition cycleThrows :: "loop_kind \<Rightarrow> dom_view \<Rightarrow> bool" where
  "cycleThrows kind dv \<longleftrightarrow> kind \<noteq> StaticLoop \<and> dv_throws dv"

text \<open>
  A loop body arrives at the head of its \<open>while\<close>: it returns when the guard fails,
  and runs one more cycle otherwise, which it survives unless the cycle throws. \<open>k\<close>
  is the position of the loop body among those that have not ended.
\<close>

definition loopBoundary :: "nat \<Rightarrow> dom_view \<Rightarrow> page \<Rightarrow> page" where
  "loopBoundary k dv pg =
     (if k < length (loops pg)
      then (case loops pg ! k of
              (kind, sid) \<Rightarrow>
                if loopGuard sid pg
                then (let pg' = loopCycle kind dv pg
                      in if cycleThrows kind dv
                         then pg'\<lparr> loops := take k (loops pg') @ drop (Suc k) (loops pg') \<rparr>
                         else pg')
                else pg\<lparr> loops := take k (loops pg) @ drop (Suc k) (loops pg) \<rparr>)
      else pg)"

text \<open>Everything that can happen in the page, one event at a time.\<close>

datatype page_event =
    Start config int
  | Stop
  | UpdateBannedCommands "jsstring list"
  | ResetStats int
  | GetAwayActions
  | SetFocusState bool
  | LoopBoundary nat dom_view
  | PassStep nat element
  | PassThrows nat

fun pageStep :: "host \<Rightarrow> page_event \<Rightarrow> page \<Rightarrow> page" where
  "pageStep H (Start cfg now) pg = autoAcceptStart H cfg now pg"
| "pageStep H Stop pg = autoAcceptStop pg"
| "pageStep H (UpdateBannedCommands l) pg = updateBannedCommands l pg"
| "pageStep H (ResetStats now) pg = resetStats now pg"
| "pageStep H GetAwayActions pg = getAwayActions pg"
| "pageStep H (SetFocusState b) pg = setFocusState b pg"
| "pageStep H (LoopBoundary k dv) pg = loopBoundary k dv pg"
| "pageStep H (PassStep j seen) pg = passStep H j seen pg"
| "pageStep H (PassThrows j) pg = passThrows j pg"

definition pageRun :: "host \<Rightarrow> page_event list \<Rightarrow> page \<Rightarrow> page" where
  "pageRun H evs pg = foldl (\<lambda>s e. pageStep H e s) pg evs"

text \<open>The page right after the script is injected, at time \<open>now\<close>.\<close>

definition injected_page :: "int \<Rightarrow> page" where
  "injected_page now =
     \<lparr> state = initialState now, loops = [], passes = [], overlay = False,
       clickedTimestamps = Map.empty, clickLog = [] \<rparr>"

text \<open>The part of the state that starts and cancels loops.\<close>

definition session :: "page \<Rightarrow> bool \<times> nat \<times> jsstring option \<times> bool option" where
  "session pg =
     (isRunning (state pg), sessionID (state pg), currentMode (state pg), isBackgroundMode (state pg))"

text \<open>
  The invariant of the loops: no loop body was launched for a session id above the
  current one, and no two loop bodies were launched for the same session id.
\<close>

definition loops_ok :: "page \<Rightarrow> bool" where
  "loops_ok pg \<longleftrightarrow>
     (\<forall>l\<in>set (loops pg). snd l \<le> sessionID (state pg)) \<and> distinct (map snd (loops pg))"

text \<open>Examples: a visible button, a button whose text also asks to cancel, two
  configurations and an empty document.\<close>

definition demo_button :: element where
  "demo_button =
     \<lparr> el_id = 7, textContent = js ''Accept all'', nearbyCommandText = [],
       displayNone = False, widthPositive = True, pointerEventsNone = False, disabled = False \<rparr>"

definition cancel_button :: element where
  "cancel_button = demo_button\<lparr> el_id := 8, textContent := js ''Accept  or Cancel Alt+Enter'' \<rparr>"

definition background_config :: config where
  "background_config =
     \<lparr> cfg_ide = js ''Cursor'', cfg_isBackgroundMode = True, cfg_pollInterval = 1000,
       cfg_bannedCommands = Some [js ''rm -rf /''] \<rparr>"

definition simple_config :: config where
  "simple_config = background_config\<lparr> cfg_isBackgroundMode := False \<rparr>"

definition empty_view :: dom_view where
  "empty_view =
     \<lparr> dv_now = 30, dv_found = [], dv_hasBadge = False, dv_tabNames = [], dv_done = None,
       dv_throws = False \<rparr>"

text \<open>A page started in background mode at time 10 and restarted in simple mode at time 20.\<close>

definition restarted_page :: page where
  "restarted_page =
     pageRun demo_host [Start background_config 10, Start simple_config 20] (injected_page 0)"

text \<open>
  A page started in simple mode at time 10, whose loop at time 1000 finds the button, and
  whose pass clicks it.
\<close>

definition button_view :: "int \<Rightarrow> dom_view" where
  "button_view now = empty_view\<lparr> dv_now := now, dv_found := [demo_button] \<rparr>"

definition clicked_events :: "page_event list" where
  "clicked_events =
     [Start simple_config 10, LoopBoundary 0 (button_view 1000), PassStep 0 demo_button]"

definition clicked_page :: page where
  "clicked_page = pageRun demo_host clicked_events (injected_page 0)"

text \<open>
  A page started in background mode at time 10, and the view of a document with a tab
  named \<open>Fix "login"\<close>, on which \<open>updateOverlay\<close> throws.
\<close>

definition background_page :: page where
  "background_page = pageRun demo_host [Start background_config 10] (injected_page 0)"

definition throwing_view :: dom_view where
  "throwing_view =
     empty_view\<lparr> dv_tabNames := [js ''Fix '' @ [34] @ js ''login'' @ [34]], dv_throws := True \<rparr>"

text \<open>
  The times at which the events of a run read \<open>Date.now()\<close> for a click pass are not
  the instant 0 of the clock, and then no click is recorded at time 0.
\<close>

fun event_time_ok :: "page_event \<Rightarrow> bool" where
  "event_time_ok (LoopBoundary k dv) = (dv_now dv \<noteq> 0)"
| "event_time_ok e = True"

definition stamps_ok :: "page \<Rightarrow> bool" where
  "stamps_ok pg \<longleftrightarrow>
     (\<forall>i t. clickedTimestamps pg i = Some t \<longrightarrow> t \<noteq> 0) \<and> (\<forall>p\<in>set (passes pg). fst p \<noteq> 0)"

section \<open>The instance lock of the extension\<close>

text \<open>
  The timer callback of \<open>startPolling\<close> in \<open>extension.js\<close>, which runs every
  5000 ms, with \<open>syncSessions\<close>.

  \<open>globalState\<close> is the key-value store of the extension, shared by the windows the
  extension runs in. Under a lock key the callback only ever stores a string and under a
  ping key a number, so the store is modelled by one map for each. A window of the
  extension has the module variables \<open>isEnabled\<close>, \<open>isLockedOut\<close>, \<open>cdpHandler\<close> (set
  or not) and \<open>currentIDE\<close>, the constant \<open>INSTANCE_ID\<close> (a random string drawn when
  the module is loaded), and \<open>globalContext.extension.id\<close>, the identifier of the
  extension. \<open>syncs\<close> counts the calls of \<open>cdpHandler.start\<close>.
\<close>

record global_state =
  gs_strings :: "jsstring \<rightharpoonup> jsstring"
  gs_numbers :: "jsstring \<rightharpoonup> int"

record window =
  isEnabled :: bool
  isLockedOut :: bool
  cdpHandler :: bool
  currentIDE :: jsstring
  INSTANCE_ID :: jsstring
  extension_id :: jsstring
  syncs :: nat

definition lockKey :: "host \<Rightarrow> window \<Rightarrow> jsstring" where
  "lockKey H w = toLowerCase H (currentIDE w) @ js ''-instance-lock''"

definition pingKey :: "host \<Rightarrow> window \<Rightarrow> jsstring" where
  "pingKey H w = lockKey H w @ js ''-ping''"

text \<open>\<open>syncSessions\<close>: \<open>if (cdpHandler && !isLockedOut) await cdpHandler.start(...)\<close>.\<close>

definition syncSessions :: "window \<Rightarrow> window" where
  "syncSessions w = (if cdpHandler w \<and> \<not> isLockedOut w then w\<lparr> syncs := syncs w + 1 \<rparr> else w)"

text \<open>
  The test for standby:
  \<open>activeInstance && activeInstance !== myId\<close> and then
  \<open>lastPing && (Date.now() - lastPing) < 15000\<close>, where \<open>myId\<close> is
  \<open>globalContext.extension.id\<close>. The empty string and the number 0 are falsy.
\<close>

definition lockedByOther :: "host \<Rightarrow> int \<Rightarrow> global_state \<Rightarrow> window \<Rightarrow> bool" where
  "lockedByOther H now gs w =
     (case gs_strings gs (lockKey H w) of
        None \<Rightarrow> False
      | Some activeInstance \<Rightarrow>
          activeInstance \<noteq> [] \<and> activeInstance \<noteq> extension_id w \<and>
          (case gs_numbers gs (pingKey H w) of
             None \<Rightarrow> False
           | Some lastPing \<Rightarrow> lastPing \<noteq> 0 \<and> now - lastPing < 15000))"

text \<open>One run of the callback at time \<open>now\<close>: the store and the window afterwards.\<close>

definition tick :: "host \<Rightarrow> int \<Rightarrow> global_state \<times> window \<Rightarrow> global_state \<times> window" where
  "tick H now gw =
     (case gw of
        (gs, w) \<Rightarrow>
          if \<not> isEnabled w then (gs, w)
          else if lockedByOther H now gs w then (gs, w\<lparr> isLockedOut := True \<rparr>)
          else
            (gs\<lparr> gs_strings := (gs_strings gs)(lockKey H w \<mapsto> extension_id w),
                 gs_numbers := (gs_numbers gs)(pingKey H w \<mapsto> now) \<rparr>,
             syncSessions (w\<lparr> isLockedOut := False \<rparr>)))"

text \<open>
  Two windows of the same extension in the same IDE: the extension identifier is the
  same, the instance ids differ.
\<close>

definition empty_store :: global_state where
  "empty_store = \<lparr> gs_strings = Map.empty, gs_numbers = Map.empty \<rparr>"

definition window_A :: window where
  "window_A =
     \<lparr> isEnabled = True, isLockedOut = False, cdpHandler = True, currentIDE = js ''Antigravity'',
       INSTANCE_ID = js ''k3x9q'', extension_id = js ''publisher.auto-accept'', syncs = 0 \<rparr>"

definition window_B :: window where
  "window_B = window_A\<lparr> INSTANCE_ID := js ''p7m2d'' \<rparr>"

text \<open>A window of another extension identifier, for the case the test provides for.\<close>

definition window_C :: window where
  "window_C = window_A\<lparr> INSTANCE_ID := js ''z1c4v'', extension_id := js ''other.auto-accept'' \<rparr>"

text \<open>Every owner string in the store is the extension identifier \<open>e\<close>.\<close>

definition owned_by :: "jsstring \<Rightarrow> global_state \<Rightarrow> bool" where
  "owned_by e gs \<longleftrightarrow> (\<forall>k a. gs_strings gs k = Some a \<longrightarrow> a = e)"

section \<open>Properties of the lowercase forms\<close>

lemmas demo_defs = demo_host_def lowerSigma_def lower_unit_def cased_def caseIgnorable_def
  casedFollows_def

lemma lowerSigma_from_latin1: "latin1 s \<Longrightarrow> lowerSigma_from b s = lowerLatin1 s"
  by (induction s arbitrary: b) (auto simp: latin1_def lowerLatin1_def)

text \<open>The host of the examples lowers the strings of code units below 256 as JavaScript does.\<close>

lemma demo_host_lowersLatin1: "lowersLatin1 demo_host"
  by (simp add: lowersLatin1_def demo_host_def lowerSigma_def lowerSigma_from_latin1)

lemma latin1_js: "latin1 (js s)"
proof -
  have "of_char c < (256::nat)" for c :: char
    by (simp add: of_char_def)
  then show ?thesis by (auto simp: latin1_def js_def)
qed

section \<open>Properties of the command correlation\<close>

lemma corr_new: "correlated (new_CDPHandler t)"
  by (simp add: correlated_def new_CDPHandler_def)

lemma corr_sendCommand: "correlated h \<Longrightarrow> correlated (snd (sendCommand p h))"
  unfolding correlated_def sendCommand_def
  by (auto simp: Let_def less_Suc_eq split: option.splits)

lemma corr_timeoutCallback: "correlated h \<Longrightarrow> correlated (timeoutCallback i h)"
  unfolding correlated_def timeoutCallback_def
  by (auto simp: image_iff)

lemma corr_onMessage: "correlated h \<Longrightarrow> correlated (onMessage d h)"
  unfolding correlated_def onMessage_def
  by (auto simp: image_iff split: option.splits)

lemma corr_RunTimer: "correlated h \<Longrightarrow> correlated (step (RunTimer i) h)"
proof (cases "timers h i")
  case None
  assume "correlated h" with None show ?thesis by simp
next
  case (Some due)
  assume h: "correlated h"
  have "correlated (timeoutCallback i (h\<lparr> timers := (timers h)(i := None) \<rparr>))"
    using h unfolding correlated_def timeoutCallback_def by (auto simp: image_iff)
  with h Some show ?thesis by simp
qed

lemma corr_conn: "correlated h \<Longrightarrow> correlated (h\<lparr> connections := c \<rparr>)"
  by (simp add: correlated_def)

lemma corr_clock: "correlated h \<Longrightarrow> correlated (h\<lparr> clock := c \<rparr>)"
  by (simp add: correlated_def)

lemma corr_step: "correlated h \<Longrightarrow> correlated (step e h)"
  by (cases e) (simp_all add: corr_sendCommand corr_onMessage corr_RunTimer corr_conn corr_clock
      onOpen_def onError_def onClose_def del: step.simps(8) split: option.splits)

lemma corr_run: "correlated h \<Longrightarrow> correlated (run evs h)"
  unfolding run_def by (induction evs arbitrary: h) (simp_all add: corr_step del: step.simps)

lemma timed_step: "timed h \<Longrightarrow> timed (step e h)"
  unfolding timed_def
  by (cases e)
     (fastforce simp: sendCommand_def onMessage_def onOpen_def onError_def onClose_def
        timeoutCallback_def Let_def split: option.splits if_splits)+

lemma timed_run: "timed h \<Longrightarrow> timed (run evs h)"
  unfolding run_def by (induction evs arbitrary: h) (simp_all add: timed_step del: step.simps)

lemma timed_new: "timed (new_CDPHandler t)"
  by (simp add: timed_def new_CDPHandler_def)

lemma completions_0: "i \<notin> fst ` set (settled h) \<Longrightarrow> completions h i = 0"
  by (simp add: completions_def count_list_0_iff)

lemma count_list_distinct: "distinct xs \<Longrightarrow> x \<in> set xs \<Longrightarrow> count_list xs x = 1"
  by (induction xs) auto

lemma completions_1: "distinct (map fst (settled h)) \<Longrightarrow> i \<in> fst ` set (settled h) \<Longrightarrow> completions h i = 1"
  by (simp add: completions_def count_list_distinct)

text \<open>
  C1. In every state the handler can reach, the log holds at most one completion for each
  command id; an id given out is either still pending (no completion yet, timer armed)
  or completed exactly once, and it is completed exactly once as soon as its timer has
  run. A timer is due 2000 ms after its command was transmitted. An answer whose id is
  pending removes that entry and settles that command with the answer's own result or
  error, whatever else is pending; an answer whose id is not pending (never given out,
  already answered, or evicted by the timer) changes nothing. A due timer whose command is
  still pending evicts the entry and rejects the command with the error \<open>timeout\<close>; a
  timer whose command is no longer pending settles nothing. A command accepted by
  \<open>sendCommand\<close> gets an id that is new.
\<close>

theorem C1_one_completion_per_command:
  assumes h: "h = run evs (new_CDPHandler t)"
  shows
    "distinct (map fst (settled h))
   \<and> (\<forall>i. 1 \<le> i \<and> i < messageId h \<longrightarrow>
         (if i \<in> pendingMessages h then completions h i = 0 \<and> timers h i \<noteq> None
          else completions h i = 1))
   \<and> (\<forall>i. 1 \<le> i \<and> i < messageId h \<and> timers h i = None \<longrightarrow> completions h i = 1)
   \<and> (\<forall>i due. timers h i = Some due \<longrightarrow>
         (\<exists>p s. (p, i, s) \<in> set (sent h) \<and> due = s + 2000 \<and> s \<le> clock h))
   \<and> (\<forall>msg::message. msg_id msg \<in> pendingMessages h \<longrightarrow>
         onMessage (Some msg) h =
           h\<lparr> pendingMessages := pendingMessages h - {msg_id msg},
              settled := settled h @ [(msg_id msg, answer msg)] \<rparr>)
   \<and> (\<forall>msg::message. msg_id msg \<notin> pendingMessages h \<longrightarrow> onMessage (Some msg) h = h)
   \<and> (\<forall>i due. i \<in> pendingMessages h \<and> timers h i = Some due \<and> due \<le> clock h \<longrightarrow>
         step (RunTimer i) h =
           h\<lparr> timers := (timers h)(i := None),
              pendingMessages := pendingMessages h - {i},
              settled := settled h @ [(i, Rejected ''timeout'')] \<rparr>)
   \<and> (\<forall>i. i \<notin> pendingMessages h \<longrightarrow>
         settled (step (RunTimer i) h) = settled h
         \<and> pendingMessages (step (RunTimer i) h) = pendingMessages h)
   \<and> (\<forall>p i. fst (sendCommand p h) = Some i \<longrightarrow>
         i = messageId h \<and> i \<notin> pendingMessages h \<and> completions h i = 0)"
proof -
  have I: "correlated h" unfolding h by (rule corr_run [OF corr_new])
  have T: "timed h" unfolding h by (rule timed_run [OF timed_new])
  have d: "distinct (map fst (settled h))" using I by (simp add: correlated_def)
  have pend: "\<And>i. i \<in> pendingMessages h \<Longrightarrow>
      1 \<le> i \<and> i < messageId h \<and> timers h i \<noteq> None \<and> i \<notin> fst ` set (settled h)"
    using I unfolding correlated_def by blast
  have fin: "\<And>i. 1 \<le> i \<Longrightarrow> i < messageId h \<Longrightarrow> i \<notin> pendingMessages h \<Longrightarrow>
      i \<in> fst ` set (settled h)"
    using I unfolding correlated_def by blast
  have old: "\<And>i. i \<in> fst ` set (settled h) \<Longrightarrow> i < messageId h"
    using I unfolding correlated_def by blast
  have c2: "\<forall>i. 1 \<le> i \<and> i < messageId h \<longrightarrow>
         (if i \<in> pendingMessages h then completions h i = 0 \<and> timers h i \<noteq> None
          else completions h i = 1)"
    using pend fin d by (simp add: completions_0 completions_1)
  have c3: "\<forall>i. 1 \<le> i \<and> i < messageId h \<and> timers h i = None \<longrightarrow> completions h i = 1"
    using pend fin d by (metis completions_1)
  have c4: "\<forall>i due. timers h i = Some due \<longrightarrow>
         (\<exists>p s. (p, i, s) \<in> set (sent h) \<and> due = s + 2000 \<and> s \<le> clock h)"
    using T by (simp add: timed_def)
  have c5: "\<forall>msg::message. msg_id msg \<in> pendingMessages h \<longrightarrow>
         onMessage (Some msg) h =
           h\<lparr> pendingMessages := pendingMessages h - {msg_id msg},
              settled := settled h @ [(msg_id msg, answer msg)] \<rparr>"
  proof (intro allI impI)
    fix msg :: message assume m: "msg_id msg \<in> pendingMessages h"
    with pend have "msg_id msg \<noteq> 0" by fastforce
    with m show "onMessage (Some msg) h =
           h\<lparr> pendingMessages := pendingMessages h - {msg_id msg},
              settled := settled h @ [(msg_id msg, answer msg)] \<rparr>"
      by (simp add: onMessage_def answer_def)
  qed
  have c6: "\<forall>msg::message. msg_id msg \<notin> pendingMessages h \<longrightarrow> onMessage (Some msg) h = h"
    by (simp add: onMessage_def)
  have c7: "\<forall>i due. i \<in> pendingMessages h \<and> timers h i = Some due \<and> due \<le> clock h \<longrightarrow>
         step (RunTimer i) h =
           h\<lparr> timers := (timers h)(i := None),
              pendingMessages := pendingMessages h - {i},
              settled := settled h @ [(i, Rejected ''timeout'')] \<rparr>"
    by (simp add: timeoutCallback_def)
  have c8: "\<forall>i. i \<notin> pendingMessages h \<longrightarrow>
         settled (step (RunTimer i) h) = settled h
         \<and> pendingMessages (step (RunTimer i) h) = pendingMessages h"
    by (simp add: timeoutCallback_def split: option.splits)
  have c9: "\<forall>p i. fst (sendCommand p h) = Some i \<longrightarrow>
         i = messageId h \<and> i \<notin> pendingMessages h \<and> completions h i = 0"
  proof (intro allI impI)
    fix p i assume s: "fst (sendCommand p h) = Some i"
    then have i: "i = messageId h"
      by (auto simp: sendCommand_def Let_def split: option.splits if_splits)
    have "i \<notin> pendingMessages h" using pend i by fastforce
    moreover have "i \<notin> fst ` set (settled h)" using old i by fastforce
    ultimately show "i = messageId h \<and> i \<notin> pendingMessages h \<and> completions h i = 0"
      using i by (simp add: completions_0)
  qed
  from d c2 c3 c4 c5 c6 c7 c8 c9 show ?thesis by blast
qed

lemma demo_fields:
  "messageId (run demo_events (new_CDPHandler 0)) = 3"
  "pendingMessages (run demo_events (new_CDPHandler 0)) = {}"
  "settled (run demo_events (new_CDPHandler 0)) = [(2, Resolved ''ok''), (1, Rejected ''timeout'')]"
  "timers (run demo_events (new_CDPHandler 0)) 1 = None"
  "timers (run demo_events (new_CDPHandler 0)) 2 = None"
  by (simp_all add: demo_events_def run_def new_CDPHandler_def sendCommand_def onOpen_def
      onMessage_def timeoutCallback_def Let_def)

theorem C1_one_completion_per_command_witness:
  "settled (run demo_events (new_CDPHandler 0)) = [(2, Resolved ''ok''), (1, Rejected ''timeout'')]
   \<and> completions (run demo_events (new_CDPHandler 0)) 1 = 1
   \<and> completions (run demo_events (new_CDPHandler 0)) 2 = 1
   \<and> onMessage (Some \<lparr> msg_id = 1, msg_error = None, msg_result = ''late'' \<rparr>)
        (run demo_events (new_CDPHandler 0)) = run demo_events (new_CDPHandler 0)"
  using C1_one_completion_per_command [where evs = demo_events and t = 0, OF refl]
  by (simp add: demo_fields)

subsection \<open>Socket close and error\<close>

lemma unanswered_step:
  assumes c: "correlated h" and a: "awaiting i h \<or> timed_out i h" and q: "\<not> answers i e"
  shows "awaiting i (step e h) \<or> timed_out i (step e h)"
proof -
  have lt: "i < messageId h"
    using c a unfolding correlated_def awaiting_def timed_out_def
    by (metis fst_conv image_eqI)
  show ?thesis
  proof (cases e)
    case (SendCommand p)
    with a lt show ?thesis
      by (auto simp: sendCommand_def awaiting_def timed_out_def completions_def Let_def
          split: option.splits)
  next
    case (WsMessage d)
    show ?thesis
    proof (cases d)
      case None
      with a WsMessage show ?thesis by (simp add: onMessage_def)
    next
      case (Some msg)
      with q WsMessage have "msg_id msg \<noteq> i" by simp
      with a WsMessage Some show ?thesis
        by (auto simp: onMessage_def awaiting_def timed_out_def completions_def)
    qed
  next
    case (RunTimer j)
    show ?thesis
    proof (cases "j = i")
      case True
      from a show ?thesis
      proof
        assume aw: "awaiting i h"
        then obtain due where "timers h i = Some due" by (auto simp: awaiting_def)
        with aw RunTimer True show ?thesis
          by (auto simp: awaiting_def timed_out_def timeoutCallback_def completions_def)
      next
        assume "timed_out i h"
        with RunTimer True show ?thesis by (simp add: timed_out_def)
      qed
    next
      case False
      with a RunTimer show ?thesis
        by (auto simp: awaiting_def timed_out_def timeoutCallback_def completions_def
            split: option.splits)
    qed
  qed (use a in \<open>auto simp: awaiting_def timed_out_def completions_def onOpen_def onError_def
        onClose_def split: option.splits\<close>)
qed

lemma unanswered_run:
  assumes "correlated h" and "awaiting i h \<or> timed_out i h" and "list_all (\<lambda>e. \<not> answers i e) evs"
  shows "awaiting i (run evs h) \<or> timed_out i (run evs h)"
  using assms unfolding run_def
proof (induction evs arbitrary: h)
  case Nil
  then show ?case by simp
next
  case (Cons e evs)
  from Cons.prems have "correlated (step e h)" by (simp add: corr_step)
  moreover from Cons.prems have "awaiting i (step e h) \<or> timed_out i (step e h)"
    by (simp add: unanswered_step del: step.simps)
  ultimately show ?case using Cons.IH [of "step e h"] Cons.prems(3) by (simp del: step.simps)
qed


lemma close_events_fields:
  "connections (run close_events (new_CDPHandler 0)) ''p1'' = None"
  "sent (run close_events (new_CDPHandler 0)) = [(''p1'', 1, 0)]"
  "pendingMessages (run close_events (new_CDPHandler 0)) = {1}"
  "settled (run close_events (new_CDPHandler 0)) = []"
  by (simp_all add: close_events_def run_def new_CDPHandler_def sendCommand_def onOpen_def
      onClose_def Let_def)

text \<open>
  C3 does not hold as stated: the commands pending on a connection are not failed by its
  \<open>close\<close> handler. After a command with id 1 is sent on page \<open>p1\<close> and the socket
  closes, the connection is gone from the table, and command 1 is still in the pending
  table with its promise neither resolved nor rejected.
\<close>

theorem C3_close_keeps_pending_counterexample:
  "connections (run close_events (new_CDPHandler 0)) ''p1'' = None
   \<and> sent (run close_events (new_CDPHandler 0)) = [(''p1'', 1, 0)]
   \<and> pendingMessages (run close_events (new_CDPHandler 0)) = {1}
   \<and> settled (run close_events (new_CDPHandler 0)) = []"
  by (simp add: close_events_fields)

text \<open>
  C3, amended. When the socket of a connection closes or errors, the handler removes that
  connection from the connections table and does nothing else: the pending table, the
  promises and the timers are as before, and a further \<open>sendCommand\<close> on that page is
  refused at once. A command still pending is failed by its own timer, which is due at
  most 2000 ms after the close: when the timer runs, the command is rejected with the
  error \<open>timeout\<close>. Whatever happens after the close, as long as no answer with the id
  of the command arrives, the command stays pending and unsettled until its timer has run,
  and from then on it is rejected with \<open>timeout\<close>, once.
\<close>

theorem C3_pending_time_out_after_close:
  assumes h: "h = run evs (new_CDPHandler t)"
    and i: "i \<in> pendingMessages h"
    and quiet: "list_all (\<lambda>e. \<not> answers i e) rest"
  shows
    "onClose p h = h\<lparr> connections := (connections h)(p := None) \<rparr>
   \<and> onError p h = h\<lparr> connections := (connections h)(p := None) \<rparr>
   \<and> connections (onClose p h) p = None
   \<and> fst (sendCommand p (onClose p h)) = None
   \<and> (\<exists>due. timers h i = Some due \<and> due \<le> clock h + 2000
         \<and> settled (step (RunTimer i) (step (Elapse (nat (due - clock h))) (onClose p h)))
             = settled h @ [(i, Rejected ''timeout'')])
   \<and> (if timers (run rest (onClose p h)) i = None
       then (i, Rejected ''timeout'') \<in> set (settled (run rest (onClose p h)))
          \<and> completions (run rest (onClose p h)) i = 1
       else i \<in> pendingMessages (run rest (onClose p h))
          \<and> completions (run rest (onClose p h)) i = 0)"
proof -
  have I: "correlated h" unfolding h by (rule corr_run [OF corr_new])
  have T: "timed h" unfolding h by (rule timed_run [OF timed_new])
  from I i obtain due where due: "timers h i = Some due"
    unfolding correlated_def by blast
  with T have le: "due \<le> clock h + 2000" unfolding timed_def by fastforce
  have "due \<le> clock h + int (nat (due - clock h))" by simp
  with due i have "settled (step (RunTimer i) (step (Elapse (nat (due - clock h))) (onClose p h)))
             = settled h @ [(i, Rejected ''timeout'')]"
    by (simp add: onClose_def timeoutCallback_def)
  with due le have 5: "\<exists>due. timers h i = Some due \<and> due \<le> clock h + 2000
         \<and> settled (step (RunTimer i) (step (Elapse (nat (due - clock h))) (onClose p h)))
             = settled h @ [(i, Rejected ''timeout'')]"
    by blast
  have Ic: "correlated (onClose p h)" using I by (simp add: onClose_def corr_conn)
  have "i \<notin> fst ` set (settled h)" using I i unfolding correlated_def by blast
  then have "completions h i = 0" by (rule completions_0)
  with i due have "awaiting i (onClose p h)" by (simp add: awaiting_def onClose_def completions_def)
  with unanswered_run [OF Ic _ quiet]
  have "awaiting i (run rest (onClose p h)) \<or> timed_out i (run rest (onClose p h))" by blast
  then have 6: "if timers (run rest (onClose p h)) i = None
       then (i, Rejected ''timeout'') \<in> set (settled (run rest (onClose p h)))
          \<and> completions (run rest (onClose p h)) i = 1
       else i \<in> pendingMessages (run rest (onClose p h))
          \<and> completions (run rest (onClose p h)) i = 0"
    by (auto simp: awaiting_def timed_out_def)
  have 14: "onClose p h = h\<lparr> connections := (connections h)(p := None) \<rparr>
   \<and> onError p h = h\<lparr> connections := (connections h)(p := None) \<rparr>
   \<and> connections (onClose p h) p = None
   \<and> fst (sendCommand p (onClose p h)) = None"
    by (simp add: onClose_def onError_def sendCommand_def)
  from 14 5 6 show ?thesis by blast
qed

theorem C3_pending_time_out_after_close_witness:
  "pendingMessages (run close_events (new_CDPHandler 0)) = {1}
   \<and> connections (onClose ''p1'' (run close_events (new_CDPHandler 0))) ''p1'' = None
   \<and> timers (run after_close (onClose ''p1'' (run close_events (new_CDPHandler 0)))) 1 = None
   \<and> settled (run after_close (onClose ''p1'' (run close_events (new_CDPHandler 0))))
       = [(1, Rejected ''timeout'')]
   \<and> completions (run after_close (onClose ''p1'' (run close_events (new_CDPHandler 0)))) 1 = 1"
proof -
  have p: "1 \<in> pendingMessages (run close_events (new_CDPHandler 0))"
    by (simp add: close_events_fields)
  have q: "list_all (\<lambda>e. \<not> answers 1 e) after_close" by (simp add: after_close_def)
  have f: "timers (run after_close (onClose ''p1'' (run close_events (new_CDPHandler 0)))) 1 = None"
    "settled (run after_close (onClose ''p1'' (run close_events (new_CDPHandler 0))))
       = [(1, Rejected ''timeout'')]"
    by (simp_all add: after_close_def close_events_def run_def new_CDPHandler_def sendCommand_def
        onOpen_def onClose_def Let_def timeoutCallback_def)
  note c3 = C3_pending_time_out_after_close [OF refl p q, of "''p1''"]
  from c3 have a: "connections (onClose ''p1'' (run close_events (new_CDPHandler 0))) ''p1'' = None"
    by blast
  from c3 have "if timers (run after_close (onClose ''p1'' (run close_events (new_CDPHandler 0)))) 1 = None
       then (1, Rejected ''timeout'') \<in> set (settled (run after_close (onClose ''p1'' (run close_events (new_CDPHandler 0)))))
          \<and> completions (run after_close (onClose ''p1'' (run close_events (new_CDPHandler 0)))) 1 = 1
       else 1 \<in> pendingMessages (run after_close (onClose ''p1'' (run close_events (new_CDPHandler 0))))
          \<and> completions (run after_close (onClose ''p1'' (run close_events (new_CDPHandler 0)))) 1 = 0"
    by blast
  with f(1) have b: "completions (run after_close (onClose ''p1'' (run close_events (new_CDPHandler 0)))) 1 = 1"
    by simp
  from a b f close_events_fields show ?thesis by blast
qed

section \<open>Properties of the banned-command filter\<close>

lemma startsWith_iff: "startsWith t p \<longleftrightarrow> (\<exists>after. t = p @ after)"
  by (induction t p rule: startsWith.induct) auto

lemma includes_js_iff: "includes_js t p \<longleftrightarrow> (\<exists>before after. t = before @ p @ after)"
proof (induction t)
  case Nil
  show ?case by auto
next
  case (Cons c cs)
  show ?case
  proof
    assume "includes_js (c # cs) p"
    then consider "startsWith (c # cs) p" | "includes_js cs p" by auto
    then show "\<exists>before after. c # cs = before @ p @ after"
    proof cases
      case 1
      then obtain after where "c # cs = p @ after" by (auto simp: startsWith_iff)
      then have "c # cs = [] @ p @ after" by simp
      then show ?thesis by blast
    next
      case 2
      with Cons obtain before after where "cs = before @ p @ after" by blast
      then have "c # cs = (c # before) @ p @ after" by simp
      then show ?thesis by blast
    qed
  next
    assume "\<exists>before after. c # cs = before @ p @ after"
    then obtain before after where e: "c # cs = before @ p @ after" by blast
    show "includes_js (c # cs) p"
    proof (cases before)
      case Nil
      with e have "startsWith (c # cs) p" by (auto simp: startsWith_iff)
      then show ?thesis by simp
    next
      case (Cons b bs)
      with e have "cs = bs @ p @ after" by simp
      with Cons.IH have "includes_js cs p" by blast
      then show ?thesis by simp
    qed
  qed
qed

lemma map_eq_append3:
  assumes "map f t = b @ m @ a"
  shows "\<exists>tb u ta. t = tb @ u @ ta \<and> map f u = m"
proof -
  let ?tb = "take (length b) t"
  let ?u = "take (length m) (drop (length b) t)"
  let ?ta = "drop (length m) (drop (length b) t)"
  have "t = ?tb @ ?u @ ?ta" by (simp only: append_take_drop_id)
  moreover have "map f ?u = take (length m) (drop (length b) (map f t))"
    by (simp add: take_map drop_map)
  then have "map f ?u = m" using assms by simp
  ultimately show ?thesis by blast
qed

lemma occurs_ci_iff: "occurs_ci pattern text \<longleftrightarrow> includes_js (lowerLatin1 text) (lowerLatin1 pattern)"
proof
  assume "occurs_ci pattern text"
  then obtain b u a where "text = b @ u @ a" "lowerLatin1 u = lowerLatin1 pattern"
    unfolding occurs_ci_def by blast
  then have "lowerLatin1 text = lowerLatin1 b @ lowerLatin1 pattern @ lowerLatin1 a"
    by (simp add: lowerLatin1_def)
  then show "includes_js (lowerLatin1 text) (lowerLatin1 pattern)"
    unfolding includes_js_iff by blast
next
  assume "includes_js (lowerLatin1 text) (lowerLatin1 pattern)"
  then obtain b a where "map lower_unit text = b @ map lower_unit pattern @ a"
    unfolding includes_js_iff lowerLatin1_def by blast
  from map_eq_append3 [OF this]
  obtain tb u ta where "text = tb @ u @ ta" and "map lower_unit u = map lower_unit pattern"
    by blast
  then show "occurs_ci pattern text"
    unfolding occurs_ci_def lowerLatin1_def by blast
qed

lemma trim_decomp: "\<exists>l r. b = l @ trim b @ r"
proof -
  let ?d = "dropWhile isWhiteSpace b"
  have "b = takeWhile isWhiteSpace b @ ?d" by simp
  moreover have "?d = rev (dropWhile isWhiteSpace (rev ?d)) @ rev (takeWhile isWhiteSpace (rev ?d))"
    by (metis rev_append rev_rev_ident takeWhile_dropWhile_id)
  ultimately have "b = takeWhile isWhiteSpace b @ trim b @ rev (takeWhile isWhiteSpace (rev ?d))"
    by (simp add: trim_def)
  then show ?thesis by blast
qed

lemma occurs_ci_trim: "occurs_ci b text \<Longrightarrow> occurs_ci (trim b) text"
proof -
  assume "occurs_ci b text"
  then obtain x u y where t: "text = x @ u @ y" and u: "map lower_unit u = map lower_unit b"
    unfolding occurs_ci_def lowerLatin1_def by blast
  obtain l r where b: "b = l @ trim b @ r" using trim_decomp by blast
  from u b have "map lower_unit u = map lower_unit l @ map lower_unit (trim b) @ map lower_unit r"
    by (metis map_append)
  from map_eq_append3 [OF this]
  obtain ul um ur where "u = ul @ um @ ur" "map lower_unit um = map lower_unit (trim b)"
    by blast
  with t have "text = (x @ ul) @ um @ (ur @ y)" by simp
  with \<open>map lower_unit um = map lower_unit (trim b)\<close> show ?thesis
    unfolding occurs_ci_def lowerLatin1_def by blast
qed

lemma occurs_ci_nonempty: "occurs_ci p text \<Longrightarrow> p \<noteq> [] \<Longrightarrow> text \<noteq> []"
  by (auto simp: occurs_ci_def lowerLatin1_def)

lemma latin1_trim: "latin1 b \<Longrightarrow> latin1 (trim b)"
  by (auto simp: latin1_def trim_def dest!: set_dropWhileD)

text \<open>
  Where the host lowers the strings of code units below 256 as JavaScript does, the test
  of the filter on such strings is the case-insensitive occurrence.
\<close>

lemma lowered_occurs:
  assumes "lowersLatin1 H" and "latin1 text" and "latin1 p"
  shows "includes_js (toLowerCase H text) (toLowerCase H p) = occurs_ci p text"
  using assms by (simp add: lowersLatin1_def occurs_ci_iff)

lemma regexForm_nonempty: "isRegexForm p \<Longrightarrow> p \<noteq> []"
  by (auto simp: isRegexForm_def lastIndexOf_def)

lemma banned_loop_iff:
  "fst (banned_loop H text pats st) \<longleftrightarrow> (\<exists>b\<in>set pats. pattern_matches H text b)"
proof (induction pats)
  case Nil
  show ?case by simp
next
  case (Cons b pats)
  show ?case
  proof (cases "trim b = []")
    case True
    with Cons show ?thesis by (simp add: pattern_matches_def)
  next
    case False
    show ?thesis
    proof (cases "isRegexForm (trim b)")
      case True
      with False Cons show ?thesis
        by (cases "RegExp H (regexPattern (trim b)) (regexFlags (trim b))")
           (simp_all add: pattern_matches_def)
    next
      case nr: False
      with False Cons show ?thesis
        by (simp add: pattern_matches_def)
    qed
  qed
qed

lemma isBanned_iff:
  "isBanned H text pats \<longleftrightarrow> text \<noteq> [] \<and> (\<exists>b\<in>set pats. pattern_matches H text b)"
  unfolding isBanned_def isCommandBanned_def
  by (cases pats) (simp_all add: banned_loop_iff del: banned_loop.simps)

lemma isCommandBanned_isBanned:
  "fst (isCommandBanned H text st) = isBanned H text (bannedCommands st)"
  unfolding isBanned_def isCommandBanned_def
  by (cases "bannedCommands st") (simp_all add: banned_loop_iff del: banned_loop.simps)

text \<open>
  The verdict depends on the host only through the constructor and through the lowercase
  forms of the text and of the trimmed patterns: two hosts that agree on these give the
  same verdict.
\<close>

lemma isBanned_cong:
  assumes "RegExp H' = RegExp H"
    and "toLowerCase H' text = toLowerCase H text"
    and "\<forall>b\<in>set pats. toLowerCase H' (trim b) = toLowerCase H (trim b)"
  shows "isBanned H' text pats = isBanned H text pats"
proof -
  have "pattern_matches H' text b = pattern_matches H text b" if "b \<in> set pats" for b
    using assms that by (auto simp: pattern_matches_def split: option.splits)
  then show ?thesis unfolding isBanned_iff by blast
qed

text \<open>
  C5 does not hold as stated: a plain pattern does not match exactly when it occurs in
  the text as a case-insensitive substring. The pattern \<open>" rm"\<close> (with a leading space)
  is plain and does not occur in \<open>"xrm"\<close>, and \<open>"xrm"\<close> is banned by it: the filter
  trims the pattern first. The pattern \<open>" "\<close> is plain and occurs in \<open>"ls -l /"\<close>,
  and \<open>"ls -l /"\<close> is not banned by it: a pattern that is blank after trimming is
  skipped. The pattern \<open>a\<close> followed by a capital sigma is plain and occurs, letter for
  letter, in the text \<open>a\<close>, capital sigma, \<open>b\<close>, and the text is not banned by it:
  the filter compares the lowercase forms, and the sigma of the pattern becomes a final
  sigma, that of the text a small sigma.
\<close>

theorem C5_plain_pattern_counterexample:
  "isBanned demo_host (js ''xrm'') [js '' rm'']
   \<and> \<not> isRegexForm (js '' rm'')
   \<and> \<not> occurs_ci (js '' rm'') (js ''xrm'')
   \<and> \<not> isBanned demo_host (js ''ls'') [js '' '']
   \<and> \<not> isRegexForm (js '' '')
   \<and> occurs_ci (js '' '') (js ''ls -l /'')
   \<and> \<not> isBanned demo_host (js ''ls -l /'') [js '' '']
   \<and> \<not> isRegexForm (js ''a'' @ [931])
   \<and> includes_js (js ''a'' @ [931] @ js ''b'') (js ''a'' @ [931])
   \<and> toLowerCase demo_host (js ''a'' @ [931]) = js ''a'' @ [962]
   \<and> toLowerCase demo_host (js ''a'' @ [931] @ js ''b'') = js ''a'' @ [963] @ js ''b''
   \<and> \<not> isBanned demo_host (js ''a'' @ [931] @ js ''b'') [js ''a'' @ [931]]"
  by (simp add: isBanned_iff pattern_matches_def occurs_ci_iff isRegexForm_def trim_def
      isWhiteSpace_def lowerLatin1_def demo_defs js_def lastIndexOf_def)

text \<open>
  C5, amended. For every text, the filter returns false when the pattern list is empty.
  Each pattern is trimmed of surrounding white space first. A pattern that is then not in
  the delimited form of a regular expression matches exactly when it is not empty, the
  text is not empty, and the lowercase form (\<open>toLowerCase\<close>) of the trimmed pattern is
  a substring of the lowercase form of the text; so a list of such patterns bans a text
  exactly when one of them matches. For a text and patterns of code units below 256
  (Basic Latin and Latin-1) that is: exactly when the trimmed pattern is not empty and
  occurs in the text as a case-insensitive substring; and for such a pattern without
  surrounding white space that is not empty: exactly when it occurs in the text as a
  case-insensitive substring.
\<close>

theorem C5_plain_pattern_trimmed_substring:
  "isBanned H text [] = False
   \<and> ((\<forall>b\<in>set patterns. \<not> isRegexForm (trim b)) \<longrightarrow>
        isBanned H text patterns =
          (text \<noteq> [] \<and> (\<exists>b\<in>set patterns. trim b \<noteq> []
              \<and> includes_js (toLowerCase H text) (toLowerCase H (trim b)))))
   \<and> (lowersLatin1 H \<and> latin1 text \<and> (\<forall>b\<in>set patterns. latin1 b \<and> \<not> isRegexForm (trim b)) \<longrightarrow>
        isBanned H text patterns = (\<exists>b\<in>set patterns. trim b \<noteq> [] \<and> occurs_ci (trim b) text))
   \<and> (lowersLatin1 H \<and> latin1 text \<and> latin1 b \<and> \<not> isRegexForm b \<and> trim b = b \<and> b \<noteq> [] \<longrightarrow>
        isBanned H text [b] = occurs_ci b text)"
proof -
  have plain: "pattern_matches H text b \<longleftrightarrow>
      trim b \<noteq> [] \<and> includes_js (toLowerCase H text) (toLowerCase H (trim b))"
    if "\<not> isRegexForm (trim b)" for b
    using that by (simp add: pattern_matches_def)
  have ne: "text \<noteq> []" if "trim b \<noteq> []" "occurs_ci (trim b) text" for b
    using that occurs_ci_nonempty by blast
  have 1: "isBanned H text [] = False" by (simp add: isBanned_iff)
  have 2: "isBanned H text patterns =
      (text \<noteq> [] \<and> (\<exists>b\<in>set patterns. trim b \<noteq> []
          \<and> includes_js (toLowerCase H text) (toLowerCase H (trim b))))"
    if "\<forall>b\<in>set patterns. \<not> isRegexForm (trim b)"
    using that plain unfolding isBanned_iff by blast
  have 3: "isBanned H text patterns = (\<exists>b\<in>set patterns. trim b \<noteq> [] \<and> occurs_ci (trim b) text)"
    if a: "lowersLatin1 H \<and> latin1 text \<and> (\<forall>b\<in>set patterns. latin1 b \<and> \<not> isRegexForm (trim b))"
  proof -
    have "includes_js (toLowerCase H text) (toLowerCase H (trim b)) = occurs_ci (trim b) text"
      if "b \<in> set patterns" for b
      using a that lowered_occurs [of H _ "trim b"] latin1_trim [of b] by blast
    with a 2 ne show ?thesis by blast
  qed
  have 4: "isBanned H text [b] = occurs_ci b text"
    if a: "lowersLatin1 H \<and> latin1 text \<and> latin1 b \<and> \<not> isRegexForm b \<and> trim b = b \<and> b \<noteq> []"
  proof -
    from a have "includes_js (toLowerCase H text) (toLowerCase H b) = occurs_ci b text"
      using lowered_occurs [of H _ b] by blast
    with a plain [of b] ne [of b] show ?thesis unfolding isBanned_iff by auto
  qed
  from 1 2 3 4 show ?thesis by blast
qed

theorem C5_plain_pattern_trimmed_substring_witness:
  "lowersLatin1 demo_host
   \<and> latin1 (js ''sudo rm -rf /tmp/x'') \<and> latin1 (js ''rm -rf /'')
   \<and> \<not> isRegexForm (js ''rm -rf /'') \<and> trim (js ''rm -rf /'') = js ''rm -rf /''
   \<and> occurs_ci (js ''rm -rf /'') (js ''sudo rm -rf /tmp/x'')
   \<and> isBanned demo_host (js ''sudo rm -rf /tmp/x'') [js ''rm -rf /'']
   \<and> isBanned demo_host (js ''SUDO RM -RF /tmp/x'') [js ''  rm -rf /'']
   \<and> \<not> isBanned demo_host (js ''sudo rm -rf /tmp/x'') []"
proof -
  have p: "\<not> isRegexForm (js ''rm -rf /'') \<and> trim (js ''rm -rf /'') = js ''rm -rf /'' \<and> js ''rm -rf /'' \<noteq> []"
    by (simp add: isRegexForm_def trim_def isWhiteSpace_def js_def)
  have q: "trim (js ''  rm -rf /'') = js ''rm -rf /''"
    by (simp add: trim_def isWhiteSpace_def js_def)
  have o: "occurs_ci (js ''rm -rf /'') (js ''sudo rm -rf /tmp/x'')"
    "occurs_ci (js ''rm -rf /'') (js ''SUDO RM -RF /tmp/x'')"
    by (simp_all add: occurs_ci_iff lowerLatin1_def lower_unit_def js_def)
  note l = demo_host_lowersLatin1 latin1_js
  have a: "isBanned demo_host (js ''sudo rm -rf /tmp/x'') [js ''rm -rf /'']
      \<and> \<not> isBanned demo_host (js ''sudo rm -rf /tmp/x'') []"
    using C5_plain_pattern_trimmed_substring
      [of demo_host "js ''sudo rm -rf /tmp/x''" "[]" "js ''rm -rf /''"] p o l by simp
  have h: "\<forall>b\<in>set [js ''  rm -rf /'']. latin1 b \<and> \<not> isRegexForm (trim b)"
    using p q l by simp
  have e: "\<exists>b\<in>set [js ''  rm -rf /'']. trim b \<noteq> [] \<and> occurs_ci (trim b) (js ''SUDO RM -RF /tmp/x'')"
    using p q o by simp
  have b: "isBanned demo_host (js ''SUDO RM -RF /tmp/x'') [js ''  rm -rf /'']"
    using C5_plain_pattern_trimmed_substring
      [of demo_host "js ''SUDO RM -RF /tmp/x''" "[js ''  rm -rf /'']" "js ''rm -rf /''"] h e l
    by blast
  from a b p o l show ?thesis by simp
qed

text \<open>
  C6 does not hold as stated: a text in which the raw pattern occurs is not always
  banned. The pattern \<open>/x/a\<close> followed by a capital sigma is in the delimited form, the
  constructor rejects its flags, and the pattern occurs, letter for letter, in the text
  \<open>run /x/a\<close>, capital sigma, \<open>b\<close>; the text is not banned: the fallback compares
  the lowercase forms, where the sigma of the pattern has become a final sigma and that
  of the text a small sigma.
\<close>

theorem C6_raw_pattern_occurs_counterexample:
  "isRegexForm (trim (js ''/x/a'' @ [931]))
   \<and> regexPattern (trim (js ''/x/a'' @ [931])) = js ''x''
   \<and> regexFlags (trim (js ''/x/a'' @ [931])) = js ''a'' @ [931]
   \<and> RegExp demo_host (js ''x'') (js ''a'' @ [931]) = None
   \<and> includes_js (js ''run /x/a'' @ [931] @ js ''b'') (js ''/x/a'' @ [931])
   \<and> toLowerCase demo_host (js ''/x/a'' @ [931]) = js ''/x/a'' @ [962]
   \<and> toLowerCase demo_host (js ''run /x/a'' @ [931] @ js ''b'') = js ''run /x/a'' @ [963] @ js ''b''
   \<and> \<not> isBanned demo_host (js ''run /x/a'' @ [931] @ js ''b'') [js ''/x/a'' @ [931]]"
  by (simp add: isBanned_iff pattern_matches_def isRegexForm_def regexPattern_def regexFlags_def
      trim_def isWhiteSpace_def demo_defs js_def lastIndexOf_def)

text \<open>
  C6, amended. A pattern in the delimited form whose expression or flags the constructor
  rejects is not skipped and stops nothing: it is matched as a literal. Alone in the list
  it bans a text exactly when the text is not empty and the lowercase form
  (\<open>toLowerCase\<close>) of the trimmed pattern, delimiters included, is a substring of the
  lowercase form of the text; and in any list that contains it such a text is banned. For
  a text and a pattern of code units below 256 (Basic Latin and Latin-1) that is: alone
  in the list it bans a text exactly when the trimmed pattern occurs in it as a
  case-insensitive substring; and in any list that contains it, a text in which the
  pattern occurs in any letter case, trimmed or as written, is banned.
\<close>

theorem C6_invalid_regex_literal_fallback:
  assumes "isRegexForm (trim b)"
    and "RegExp H (regexPattern (trim b)) (regexFlags (trim b)) = None"
  shows "isBanned H text [b] =
           (text \<noteq> [] \<and> includes_js (toLowerCase H text) (toLowerCase H (trim b)))
   \<and> (b \<in> set patterns \<and> text \<noteq> []
        \<and> includes_js (toLowerCase H text) (toLowerCase H (trim b)) \<longrightarrow> isBanned H text patterns)
   \<and> (lowersLatin1 H \<and> latin1 text \<and> latin1 b \<longrightarrow> isBanned H text [b] = occurs_ci (trim b) text)
   \<and> (lowersLatin1 H \<and> latin1 text \<and> latin1 b \<and> b \<in> set patterns
        \<and> (occurs_ci (trim b) text \<or> occurs_ci b text) \<longrightarrow> isBanned H text patterns)"
proof -
  have t: "trim b \<noteq> []" using assms(1) by (rule regexForm_nonempty)
  have m: "pattern_matches H text b \<longleftrightarrow> includes_js (toLowerCase H text) (toLowerCase H (trim b))"
    using assms t by (simp add: pattern_matches_def)
  have ne: "text \<noteq> []" if "occurs_ci (trim b) text"
    using that t occurs_ci_nonempty by blast
  have l: "includes_js (toLowerCase H text) (toLowerCase H (trim b)) = occurs_ci (trim b) text"
    if "lowersLatin1 H \<and> latin1 text \<and> latin1 b"
    using that lowered_occurs [of H _ "trim b"] latin1_trim [of b] by blast
  have 1: "isBanned H text [b] =
           (text \<noteq> [] \<and> includes_js (toLowerCase H text) (toLowerCase H (trim b)))"
    using m unfolding isBanned_iff by auto
  have 2: "isBanned H text patterns"
    if "b \<in> set patterns \<and> text \<noteq> [] \<and> includes_js (toLowerCase H text) (toLowerCase H (trim b))"
    using that m unfolding isBanned_iff by blast
  have 3: "isBanned H text [b] = occurs_ci (trim b) text"
    if "lowersLatin1 H \<and> latin1 text \<and> latin1 b"
    using 1 l [OF that] ne by blast
  have 4: "isBanned H text patterns"
    if a: "lowersLatin1 H \<and> latin1 text \<and> latin1 b \<and> b \<in> set patterns
        \<and> (occurs_ci (trim b) text \<or> occurs_ci b text)"
  proof -
    from a have o: "occurs_ci (trim b) text" using occurs_ci_trim by blast
    with a l ne 2 show ?thesis by blast
  qed
  from 1 2 3 4 show ?thesis by blast
qed

theorem C6_invalid_regex_literal_fallback_witness:
  "isRegexForm (trim (js '' /dev/sda ''))
   \<and> regexPattern (trim (js '' /dev/sda '')) = js ''dev''
   \<and> regexFlags (trim (js '' /dev/sda '')) = js ''sda''
   \<and> RegExp demo_host (js ''dev'') (js ''sda'') = None
   \<and> lowersLatin1 demo_host
   \<and> latin1 (js ''dd if=/dev/zero of=/DEV/SDA'') \<and> latin1 (js '' /dev/sda '')
   \<and> occurs_ci (trim (js '' /dev/sda '')) (js ''dd if=/dev/zero of=/DEV/SDA'')
   \<and> isBanned demo_host (js ''dd if=/dev/zero of=/DEV/SDA'') [js ''rm -rf /'', js '' /dev/sda '']"
proof -
  have f: "isRegexForm (trim (js '' /dev/sda ''))"
    "regexPattern (trim (js '' /dev/sda '')) = js ''dev''"
    "regexFlags (trim (js '' /dev/sda '')) = js ''sda''"
    by (simp_all add: isRegexForm_def regexPattern_def regexFlags_def trim_def isWhiteSpace_def
        js_def lastIndexOf_def)
  have r: "RegExp demo_host (js ''dev'') (js ''sda'') = None"
    by (simp add: demo_host_def)
  have o: "occurs_ci (trim (js '' /dev/sda '')) (js ''dd if=/dev/zero of=/DEV/SDA'')"
    by (simp add: occurs_ci_iff lowerLatin1_def lower_unit_def trim_def isWhiteSpace_def js_def)
  note l = demo_host_lowersLatin1 latin1_js
  have "isBanned demo_host (js ''dd if=/dev/zero of=/DEV/SDA'') [js ''rm -rf /'', js '' /dev/sda '']"
    using C6_invalid_regex_literal_fallback
      [of "js '' /dev/sda ''" demo_host "js ''dd if=/dev/zero of=/DEV/SDA''"
          "[js ''rm -rf /'', js '' /dev/sda '']"] f r o l
    by simp
  with f r o l show ?thesis by simp
qed

section \<open>Properties of the click pass\<close>

lemma banned_loop_state:
  "snd (banned_loop H t pats st) = (if fst (banned_loop H t pats st) then blocked st else st)"
  by (induction pats) (simp_all add: Let_def split: option.splits)

lemma isCommandBanned_state:
  "snd (isCommandBanned H t st) = (if fst (isCommandBanned H t st) then blocked st else st)"
  by (simp add: isCommandBanned_def banned_loop_state)

lemma isAcceptButton_True: "isAcceptButton H el st = (True, st') \<Longrightarrow> st' = st"
proof -
  assume a: "isAcceptButton H el st = (True, st')"
  obtain b s where c: "isCommandBanned H (nearbyCommandText el) st = (b, s)"
    by (cases "isCommandBanned H (nearbyCommandText el) st")
  with isCommandBanned_state [of H "nearbyCommandText el" st]
  have "\<not> b \<Longrightarrow> s = st" by simp
  with a c show ?thesis
    by (cases b) (simp_all add: isAcceptButton_def Let_def split: if_splits)
qed

lemma isAcceptButton_state:
  "snd (isAcceptButton H el st) = st \<or> snd (isAcceptButton H el st) = blocked st"
proof -
  obtain b s where c: "isCommandBanned H (nearbyCommandText el) st = (b, s)"
    by (cases "isCommandBanned H (nearbyCommandText el) st")
  with isCommandBanned_state [of H "nearbyCommandText el" st]
  have "s = st \<or> s = blocked st" by (simp split: if_splits)
  with c show ?thesis
    by (cases b) (auto simp: isAcceptButton_def Let_def split: if_splits)
qed

lemma clickElement_cooldown: "inCooldown now el pg \<Longrightarrow> clickElement H now el pg = (0, pg)"
  by (simp add: clickElement_def)

lemma inCooldown_cong:
  "clickedTimestamps pg' (el_id el) = clickedTimestamps pg (el_id el) \<Longrightarrow>
   inCooldown now el pg' = inCooldown now el pg"
  by (simp add: inCooldown_def)

lemma inCooldown_id:
  "el_id e = el_id el \<Longrightarrow> inCooldown now e pg = inCooldown now el pg"
  by (simp add: inCooldown_def)

lemma clickElement_other:
  assumes "el_id e \<noteq> i"
  shows "clickedTimestamps (snd (clickElement H now e pg)) i = clickedTimestamps pg i
       \<and> count_list (clickLog (snd (clickElement H now e pg))) i = count_list (clickLog pg) i"
proof (cases "inCooldown now e pg")
  case True
  then show ?thesis by (simp add: clickElement_def)
next
  case False
  obtain b st' where "isAcceptButton H e (state pg) = (b, st')"
    by (cases "isAcceptButton H e (state pg)")
  with False assms show ?thesis
    by (cases b) (simp_all add: clickElement_def Let_def)
qed

lemma clickAll_cooldown:
  assumes "inCooldown now el pg"
  shows "clickedTimestamps (snd (clickAll H now els pg)) (el_id el) = clickedTimestamps pg (el_id el)
       \<and> count_list (clickLog (snd (clickAll H now els pg))) (el_id el)
           = count_list (clickLog pg) (el_id el)"
  using assms
proof (induction els arbitrary: pg)
  case Nil
  show ?case by simp
next
  case (Cons e els)
  let ?pg' = "snd (clickElement H now e pg)"
  have keep: "clickedTimestamps ?pg' (el_id el) = clickedTimestamps pg (el_id el)
       \<and> count_list (clickLog ?pg') (el_id el) = count_list (clickLog pg) (el_id el)"
  proof (cases "el_id e = el_id el")
    case True
    with Cons.prems have "inCooldown now e pg" using inCooldown_id [of e el now pg] by simp
    then show ?thesis by (simp add: clickElement_cooldown)
  next
    case False
    then show ?thesis by (rule clickElement_other)
  qed
  then have "inCooldown now el ?pg'" using Cons.prems inCooldown_cong [of ?pg' el pg now] by simp
  note ih = Cons.IH [OF this]
  have "snd (clickAll H now (e # els) pg) = snd (clickAll H now els ?pg')"
    by (simp split: prod.splits)
  with ih keep show ?case by (simp del: clickAll.simps)
qed

lemma clickElement_eligible:
  assumes "\<not> inCooldown now el pg" and "fst (isAcceptButton H el (state pg))"
  shows "fst (clickElement H now el pg) = 1
       \<and> clickLog (snd (clickElement H now el pg)) = clickLog pg @ [el_id el]
       \<and> clickedTimestamps (snd (clickElement H now el pg)) (el_id el) = Some now
       \<and> clicksThisSession (stats (state (snd (clickElement H now el pg))))
           = clicksThisSession (stats (state pg)) + 1"
proof -
  obtain st' where a: "isAcceptButton H el (state pg) = (True, st')"
    using assms(2) by (cases "isAcceptButton H el (state pg)") auto
  then have "st' = state pg" by (rule isAcceptButton_True)
  with a assms(1) show ?thesis
    by (simp add: clickElement_def Let_def trackClick_def)
qed

lemma clickElement_passes: "passes (snd (clickElement H now el pg)) = passes pg"
proof -
  obtain b st' where "isAcceptButton H el (state pg) = (b, st')"
    by (cases "isAcceptButton H el (state pg)")
  then show ?thesis
    by (cases b) (simp_all add: clickElement_def Let_def)
qed

lemma stamps_clickElement: "now \<noteq> 0 \<Longrightarrow> stamps_ok pg \<Longrightarrow> stamps_ok (snd (clickElement H now el pg))"
proof -
  assume n: "now \<noteq> 0" and s: "stamps_ok pg"
  obtain b st' where a: "isAcceptButton H el (state pg) = (b, st')"
    by (cases "isAcceptButton H el (state pg)")
  with n s show ?thesis
    by (cases b) (auto simp: clickElement_def stamps_ok_def Let_def)
qed

lemma stamps_clickAll: "now \<noteq> 0 \<Longrightarrow> stamps_ok pg \<Longrightarrow> stamps_ok (snd (clickAll H now els pg))"
proof (induction els arbitrary: pg)
  case Nil
  then show ?case by simp
next
  case (Cons e els)
  have "snd (clickAll H now (e # els) pg) = snd (clickAll H now els (snd (clickElement H now e pg)))"
    by (simp split: prod.splits)
  with Cons.IH [OF Cons.prems(1) stamps_clickElement [OF Cons.prems]] show ?case
    by (simp del: clickAll.simps)
qed

lemma stamps_state:
  "stamps_ok pg \<Longrightarrow> clickedTimestamps pg' = clickedTimestamps pg \<Longrightarrow> passes pg' = passes pg \<Longrightarrow>
   stamps_ok pg'"
  by (simp add: stamps_ok_def)

lemma stamps_drop_pass:
  "stamps_ok pg \<Longrightarrow> stamps_ok (pg\<lparr> passes := take j (passes pg) @ drop (Suc j) (passes pg) \<rparr>)"
  by (auto simp: stamps_ok_def dest: in_set_takeD in_set_dropD)

lemma stamps_startPass: "now \<noteq> 0 \<Longrightarrow> stamps_ok pg \<Longrightarrow> stamps_ok (startPass now found pg)"
  by (auto simp: stamps_ok_def startPass_def)

lemma stamps_loopCycle:
  "dv_now dv \<noteq> 0 \<Longrightarrow> stamps_ok pg \<Longrightarrow> stamps_ok (loopCycle kind dv pg)"
proof -
  assume n: "dv_now dv \<noteq> 0" and s: "stamps_ok pg"
  have p: "stamps_ok (startPass (dv_now dv) (dv_found dv) pg)"
    by (rule stamps_startPass [OF n s])
  have u: "stamps_ok (updateTabNames ns q)" if "stamps_ok q" for ns q
    using that by (simp add: updateTabNames_def stamps_ok_def)
  have m: "stamps_ok (markDone x q)" if "stamps_ok q" for x q
    using that by (simp add: markDone_def stamps_ok_def)
  show ?thesis
    by (cases kind) (auto simp: Let_def p s u m split: option.splits)
qed

lemma stamps_loopBoundary:
  "dv_now dv \<noteq> 0 \<Longrightarrow> stamps_ok pg \<Longrightarrow> stamps_ok (loopBoundary k dv pg)"
proof -
  assume n: "dv_now dv \<noteq> 0" and s: "stamps_ok pg"
  have d: "stamps_ok (q\<lparr> loops := l \<rparr>)" if "stamps_ok q" for q l
    using that by (simp add: stamps_ok_def)
  from stamps_loopCycle [OF n s] s d show ?thesis
    by (simp add: loopBoundary_def Let_def split: prod.splits)
qed

lemma stamps_passStep: "stamps_ok pg \<Longrightarrow> stamps_ok (passStep H j seen pg)"
proof (cases "j < length (passes pg)")
  case False
  assume "stamps_ok pg"
  with False show ?thesis by (simp add: passStep_def)
next
  case True
  assume s: "stamps_ok pg"
  obtain now els where p: "passes pg ! j = (now, els)" by (cases "passes pg ! j")
  from True p have m: "(now, els) \<in> set (passes pg)" by (metis nth_mem)
  with s have n: "now \<noteq> 0" by (auto simp: stamps_ok_def)
  show ?thesis
  proof (cases els)
    case Nil
    with True p stamps_drop_pass [OF s, of j] show ?thesis by (simp add: passStep_def)
  next
    case (Cons i rest)
    let ?q = "snd (clickElement H now (seen\<lparr> el_id := i \<rparr>) pg)"
    have q: "stamps_ok ?q" by (rule stamps_clickElement [OF n s])
    have "\<forall>x\<in>set ((passes pg)[j := (now, rest)]). fst x \<noteq> 0"
    proof
      fix x
      assume "x \<in> set ((passes pg)[j := (now, rest)])"
      then have "x \<in> insert (now, rest) (set (passes pg))"
        using set_update_subset_insert by fastforce
      with s n show "fst x \<noteq> 0" by (auto simp: stamps_ok_def)
    qed
    with q have "stamps_ok (?q\<lparr> passes := (passes pg)[j := (now, rest)] \<rparr>)"
      by (simp add: stamps_ok_def)
    with True p Cons show ?thesis by (simp add: passStep_def)
  qed
qed

lemma stamps_step: "event_time_ok e \<Longrightarrow> stamps_ok pg \<Longrightarrow> stamps_ok (pageStep H e pg)"
proof (cases e)
  case (LoopBoundary k dv)
  assume "event_time_ok e" "stamps_ok pg"
  with LoopBoundary show ?thesis by (simp add: stamps_loopBoundary)
next
  case (PassStep j seen)
  assume "stamps_ok pg"
  with PassStep show ?thesis by (simp add: stamps_passStep)
next
  case (PassThrows j)
  assume "stamps_ok pg"
  with PassThrows stamps_drop_pass [of pg j] show ?thesis by (simp add: passThrows_def)
next
  case (Start cfg now)
  assume "stamps_ok pg"
  then show ?thesis unfolding Start
    by (auto simp: autoAcceptStart_def Let_def pushBannedCommands_def updateBannedCommands_def
        stamps_ok_def split: option.splits)
qed (auto simp: stamps_ok_def autoAcceptStop_def updateBannedCommands_def resetStats_def
        getAwayActions_def setFocusState_def)

text \<open>
  A pass that nothing interrupts is \<open>performClick\<close>: the call followed by the steps
  of the pass, one for each element (seen as the call found it) and one to finish, leaves
  the page as \<open>performClick\<close> leaves it.
\<close>

lemma clickElement_set_passes:
  "snd (clickElement H now el (pg\<lparr> passes := x \<rparr>)) = (snd (clickElement H now el pg))\<lparr> passes := x \<rparr>"
proof -
  have c: "inCooldown now el (pg\<lparr> passes := x \<rparr>) = inCooldown now el pg"
    by (simp add: inCooldown_def)
  obtain b st' where "isAcceptButton H el (state pg) = (b, st')"
    by (cases "isAcceptButton H el (state pg)")
  then show ?thesis
    by (cases b) (simp_all add: clickElement_def c Let_def)
qed

lemma clickAll_set_passes:
  "snd (clickAll H now els (pg\<lparr> passes := x \<rparr>)) = (snd (clickAll H now els pg))\<lparr> passes := x \<rparr>"
proof (induction els arbitrary: pg)
  case Nil
  show ?case by simp
next
  case (Cons e els)
  have u: "snd (clickAll H now (e # els) q) = snd (clickAll H now els (snd (clickElement H now e q)))"
    for q by (simp split: prod.splits)
  show ?case
    unfolding u clickElement_set_passes by (rule Cons.IH)
qed

lemma clickAll_passes: "passes (snd (clickAll H now els pg)) = passes pg"
proof (induction els arbitrary: pg)
  case Nil
  show ?case by simp
next
  case (Cons e els)
  have "snd (clickAll H now (e # els) pg) = snd (clickAll H now els (snd (clickElement H now e pg)))"
    by (simp split: prod.splits)
  with Cons [of "snd (clickElement H now e pg)"] show ?case
    by (simp add: clickElement_passes del: clickAll.simps)
qed

lemma pass_uninterrupted:
  "passes pg = ps @ [(now, map el_id els)] \<Longrightarrow>
   pageRun H (map (PassStep (length ps)) els @ [PassStep (length ps) last_seen]) pg
     = (snd (clickAll H now els pg))\<lparr> passes := ps \<rparr>"
proof (induction els arbitrary: pg)
  case Nil
  then show ?case by (simp add: pageRun_def passStep_def)
next
  case (Cons el els)
  let ?q = "snd (clickElement H now el pg)"
  let ?pg = "?q\<lparr> passes := ps @ [(now, map el_id els)] \<rparr>"
  have s: "passStep H (length ps) el pg = ?pg"
    using Cons.prems by (simp add: passStep_def)
  have u: "snd (clickAll H now (el # els) pg) = snd (clickAll H now els ?q)"
    by (simp split: prod.splits)
  have "pageRun H (map (PassStep (length ps)) (el # els) @ [PassStep (length ps) last_seen]) pg
      = pageRun H (map (PassStep (length ps)) els @ [PassStep (length ps) last_seen]) ?pg"
    using s by (simp add: pageRun_def)
  also have "\<dots> = (snd (clickAll H now els ?pg))\<lparr> passes := ps \<rparr>"
    by (rule Cons.IH) simp
  also have "\<dots> = (snd (clickAll H now els ?q))\<lparr> passes := ps \<rparr>"
    by (simp add: clickAll_set_passes)
  finally show ?case unfolding u .
qed

lemma performClick_uninterrupted:
  "pageRun H (map (PassStep (length (passes pg))) (uniqueFound [] found)
              @ [PassStep (length (passes pg)) last_seen])
      (startPass now found pg)
     = snd (performClick H now found pg)"
proof -
  have "passes (startPass now found pg) = passes pg @ [(now, map el_id (uniqueFound [] found))]"
    by (simp add: startPass_def)
  from pass_uninterrupted [OF this, of H last_seen]
  show ?thesis
    using clickAll_passes [of H now "uniqueFound [] found" pg]
    by (simp add: performClick_def startPass_def clickAll_set_passes)
qed

lemma stamps_run:
  "list_all event_time_ok evs \<Longrightarrow> stamps_ok pg \<Longrightarrow> stamps_ok (pageRun H evs pg)"
  unfolding pageRun_def
  by (induction evs arbitrary: pg) (simp_all add: stamps_step del: pageStep.simps)

lemma stamps_injected: "stamps_ok (injected_page t)"
  by (simp add: stamps_ok_def injected_page_def)

section \<open>Properties of the click classifier and of the cooldown\<close>

lemmas text_defs = normalizeText_def js_def trim_def demo_defs lowerLatin1_def isWhiteSpace_def
     match_hint_def HINT_KEYS_def isWordChar_def removeZeroWidth_def Let_def

lemma demo_button_accept: "isAcceptButton demo_host demo_button st = (True, st)"
  by (simp add: isAcceptButton_def demo_button_def some_included_def ACCEPT_PATTERNS_def REJECTS_def
      text_defs)

lemma cancel_button_text: "normalizeText demo_host (textContent cancel_button) = js ''accept or cancel''"
  by (simp add: cancel_button_def demo_button_def text_defs)

text \<open>
  C7. For every element, every banned list and every host (regular-expression engine and
  lowercase forms), the classifier returns false, and counts nothing, whenever the normalised text (lowercased,
  keyboard hints stripped, zero-width characters removed, white space collapsed) is empty
  or longer than 50 code units, and whenever it contains one of the rejection keywords,
  whether or not it contains an acceptance keyword as well.
\<close>

theorem C7_reject_before_accept:
  "(normalizeText H (textContent el) = []
    \<or> length (normalizeText H (textContent el)) > 50
    \<or> (\<exists>r\<in>set REJECTS. includes_js (normalizeText H (textContent el)) r))
   \<longrightarrow> isAcceptButton H el st = (False, st)"
  by (auto simp: isAcceptButton_def some_included_def list_ex_iff Let_def)

theorem C7_reject_before_accept_witness:
  "normalizeText demo_host (textContent cancel_button) = js ''accept or cancel''
   \<and> includes_js (js ''accept or cancel'') (js ''accept'')
   \<and> includes_js (js ''accept or cancel'') (js ''cancel'')
   \<and> isAcceptButton demo_host cancel_button (initialState 0) = (False, initialState 0)
   \<and> isAcceptButton demo_host demo_button (initialState 0) = (True, initialState 0)"
proof -
  have i: "includes_js (js ''accept or cancel'') (js ''accept'')"
    "includes_js (js ''accept or cancel'') (js ''cancel'')"
    by (simp_all add: js_def)
  have r: "js ''cancel'' \<in> set REJECTS" by (simp add: REJECTS_def)
  from i r have "\<exists>r\<in>set REJECTS. includes_js (normalizeText demo_host (textContent cancel_button)) r"
    unfolding cancel_button_text by blast
  with C7_reject_before_accept [where el = cancel_button and H = demo_host and st = "initialState 0"]
  have "isAcceptButton demo_host cancel_button (initialState 0) = (False, initialState 0)"
    by blast
  with i show ?thesis by (simp add: cancel_button_text demo_button_accept)
qed

lemma ide_fields:
  "ideOf demo_host background_config = js ''cursor''"
  "ideOf demo_host simple_config = js ''cursor''"
  by (simp_all add: ideOf_def background_config_def simple_config_def demo_defs js_def)

lemma cfg_fields:
  "cfg_isBackgroundMode background_config"
  "\<not> cfg_isBackgroundMode simple_config"
  "cfg_bannedCommands background_config = Some [js ''rm -rf /'']"
  "cfg_bannedCommands simple_config = Some [js ''rm -rf /'']"
  by (simp_all add: background_config_def simple_config_def)

lemma clicked_fields:
  "clickLog clicked_page = [7]"
  "clickedTimestamps clicked_page 7 = Some 1000"
  by (simp_all add: clicked_page_def clicked_events_def pageRun_def autoAcceptStart_def
      sameConfig_def ide_fields cfg_fields pushBannedCommands_def updateBannedCommands_def
      injected_page_def initialState_def
      createDefaultStats_def Let_def loopBoundary_def loopGuard_def
      cycleThrows_def startPass_def passStep_def button_view_def empty_view_def
      clickElement_def inCooldown_def demo_button_accept,
      simp_all add: demo_button_def)

text \<open>
  C8. In every page reached from the injection by passes that do not start at the instant
  0 of the clock: an element whose recorded click time \<open>t\<close> is less than 5000 ms before
  the time of a pass is skipped by the pass: its step changes nothing (no click, no
  tracking, no new timestamp), and over the whole pass, whatever else is found, the
  element is not clicked and its timestamp stays \<open>t\<close>. Once 5000 ms or more have
  passed since \<open>t\<close> the element is eligible again: if the classifier accepts it, it is
  clicked, tracked as one more click, and its timestamp becomes the time of the pass. The
  guard of the pass skips the element exactly when \<open>now - t < 5000\<close>.
\<close>

theorem C8_click_cooldown:
  assumes pg: "pg = pageRun H evs (injected_page t0)"
    and times: "list_all event_time_ok evs"
  shows
    "(clickedTimestamps pg (el_id el) = Some t \<and> now - t < 5000 \<longrightarrow>
        clickElement H now el pg = (0, pg)
        \<and> count_list (clickLog (snd (performClick H now found pg))) (el_id el)
            = count_list (clickLog pg) (el_id el)
        \<and> clickedTimestamps (snd (performClick H now found pg)) (el_id el) = Some t)
   \<and> (clickedTimestamps pg (el_id el) = Some t \<and> 5000 \<le> now - t
        \<and> fst (isAcceptButton H el (state pg)) \<longrightarrow>
        fst (clickElement H now el pg) = 1
        \<and> clickLog (snd (clickElement H now el pg)) = clickLog pg @ [el_id el]
        \<and> clickedTimestamps (snd (clickElement H now el pg)) (el_id el) = Some now
        \<and> clicksThisSession (stats (state (snd (clickElement H now el pg))))
            = clicksThisSession (stats (state pg)) + 1)
   \<and> (clickedTimestamps pg (el_id el) = Some t \<longrightarrow> inCooldown now el pg = (now - t < 5000))"
proof -
  have ok: "stamps_ok pg" unfolding pg by (rule stamps_run [OF times stamps_injected])
  have 3: "inCooldown now el pg = (now - t < 5000)" if "clickedTimestamps pg (el_id el) = Some t"
    using that ok by (auto simp: inCooldown_def CLICK_COOLDOWN_MS_def stamps_ok_def)
  have 1: "clickElement H now el pg = (0, pg)
        \<and> count_list (clickLog (snd (performClick H now found pg))) (el_id el)
            = count_list (clickLog pg) (el_id el)
        \<and> clickedTimestamps (snd (performClick H now found pg)) (el_id el) = Some t"
    if a: "clickedTimestamps pg (el_id el) = Some t \<and> now - t < 5000"
  proof -
    from a 3 have c: "inCooldown now el pg" by simp
    from clickAll_cooldown [OF c, of H "uniqueFound [] found"] clickElement_cooldown [OF c, of H] a
    show ?thesis by (simp add: performClick_def)
  qed
  have 2: "fst (clickElement H now el pg) = 1
        \<and> clickLog (snd (clickElement H now el pg)) = clickLog pg @ [el_id el]
        \<and> clickedTimestamps (snd (clickElement H now el pg)) (el_id el) = Some now
        \<and> clicksThisSession (stats (state (snd (clickElement H now el pg))))
            = clicksThisSession (stats (state pg)) + 1"
    if a: "clickedTimestamps pg (el_id el) = Some t \<and> 5000 \<le> now - t
        \<and> fst (isAcceptButton H el (state pg))"
  proof -
    from a 3 have "\<not> inCooldown now el pg" by simp
    from clickElement_eligible [OF this] a show ?thesis by blast
  qed
  from 1 2 3 show ?thesis by blast
qed

theorem C8_click_cooldown_witness:
  "clickLog clicked_page = [7]
   \<and> clickedTimestamps clicked_page 7 = Some 1000
   \<and> performClick demo_host 3000 [demo_button] clicked_page = (0, clicked_page)
   \<and> clickLog (snd (performClick demo_host 5999 [demo_button, demo_button] clicked_page)) = [7]
   \<and> clickLog (snd (clickElement demo_host 6000 demo_button clicked_page)) = [7, 7]
   \<and> clickedTimestamps (snd (clickElement demo_host 6000 demo_button clicked_page)) 7 = Some 6000"
proof -
  have id: "el_id demo_button = 7" by (simp add: demo_button_def)
  have r: "clicked_page = pageRun demo_host clicked_events (injected_page 0)"
    by (rule clicked_page_def)
  have ts: "list_all event_time_ok clicked_events"
    by (simp add: clicked_events_def button_view_def)
  note c8 = C8_click_cooldown [OF r ts, where el = demo_button and t = 1000]
  from c8 [of 3000 "[demo_button]"]
  have b: "clickElement demo_host 3000 demo_button clicked_page = (0, clicked_page)"
    by (simp add: clicked_fields id)
  have n: "clickLog (snd (performClick demo_host 5999 [demo_button, demo_button] clicked_page)) = [7]"
    using c8 [of 5999 "[demo_button]"]
    by (simp add: clicked_fields id performClick_def)
  from c8 [of 6000 "[demo_button]"]
  have c: "clickLog (snd (clickElement demo_host 6000 demo_button clicked_page)) = [7, 7]
     \<and> clickedTimestamps (snd (clickElement demo_host 6000 demo_button clicked_page)) 7 = Some 6000"
    by (simp add: clicked_fields id demo_button_accept)
  from b c n show ?thesis
    by (simp add: performClick_def clicked_fields)
qed

text \<open>
  The cooldown when passes are interleaved. The recorded click time of an element never
  goes back: a click is recorded at the time of its pass, and only when that time is
  5000 ms or more after the time recorded before. So an element that is in cooldown for a
  pass when the pass is put in flight is still in cooldown for it when the pass reaches
  the element, whatever has happened in the page in between, and the step of the pass
  skips it.
\<close>

lemma stamp_grows_clickElement:
  assumes "stamps_ok pg" and "clickedTimestamps pg i = Some t"
  shows "\<exists>t'. clickedTimestamps (snd (clickElement H now el pg)) i = Some t' \<and> t \<le> t'"
proof (cases "el_id el = i")
  case False
  from clickElement_other [OF False, of H now pg] assms(2) show ?thesis by simp
next
  case True
  show ?thesis
  proof (cases "inCooldown now el pg")
    case c: True
    with assms(2) show ?thesis by (simp add: clickElement_def)
  next
    case c: False
    from c True assms have n: "t \<le> now"
      by (auto simp: inCooldown_def stamps_ok_def CLICK_COOLDOWN_MS_def)
    obtain b st' where "isAcceptButton H el (state pg) = (b, st')"
      by (cases "isAcceptButton H el (state pg)")
    with c True n assms(2) show ?thesis
      by (cases b) (simp_all add: clickElement_def Let_def)
  qed
qed

lemma loopBoundary_stamps: "clickedTimestamps (loopBoundary k dv pg) = clickedTimestamps pg"
proof -
  have c: "clickedTimestamps (loopCycle kind dv pg) = clickedTimestamps pg" for kind
    by (cases kind)
       (simp_all add: startPass_def updateTabNames_def markDone_def Let_def split: option.splits)
  show ?thesis
    by (simp add: loopBoundary_def Let_def c split: prod.splits)
qed

lemma stamp_grows_step:
  assumes "stamps_ok pg" and "clickedTimestamps pg i = Some t"
  shows "\<exists>t'. clickedTimestamps (pageStep H e pg) i = Some t' \<and> t \<le> t'"
proof (cases e)
  case (PassStep j seen)
  show ?thesis
  proof (cases "j < length (passes pg)")
    case False
    with PassStep assms(2) show ?thesis by (simp add: passStep_def)
  next
    case True
    obtain now els where p: "passes pg ! j = (now, els)" by (cases "passes pg ! j")
    show ?thesis
    proof (cases els)
      case Nil
      with PassStep True p assms(2) show ?thesis by (simp add: passStep_def)
    next
      case (Cons x rest)
      with PassStep True p stamp_grows_clickElement [OF assms, of H now "seen\<lparr> el_id := x \<rparr>"]
      show ?thesis by (simp add: passStep_def)
    qed
  qed
next
  case (Start cfg now)
  with assms(2) show ?thesis
    by (auto simp: autoAcceptStart_def Let_def pushBannedCommands_def updateBannedCommands_def
        split: option.splits)
qed (use assms(2) in \<open>simp_all add: loopBoundary_stamps passThrows_def autoAcceptStop_def
        updateBannedCommands_def resetStats_def getAwayActions_def setFocusState_def\<close>)

lemma stamp_grows_run:
  "list_all event_time_ok evs \<Longrightarrow> stamps_ok pg \<Longrightarrow> clickedTimestamps pg i = Some t \<Longrightarrow>
   \<exists>t'. clickedTimestamps (pageRun H evs pg) i = Some t' \<and> t \<le> t'"
proof (induction evs arbitrary: pg t)
  case Nil
  then show ?case by (simp add: pageRun_def)
next
  case (Cons e evs)
  from Cons.prems have ok: "stamps_ok (pageStep H e pg)" by (simp add: stamps_step)
  from stamp_grows_step [OF Cons.prems(2) Cons.prems(3), of H e]
  obtain u where u: "clickedTimestamps (pageStep H e pg) i = Some u" "t \<le> u" by blast
  from Cons.prems(1) have "list_all event_time_ok evs" by simp
  from Cons.IH [OF this ok u(1)]
  obtain v where "clickedTimestamps (pageRun H evs (pageStep H e pg)) i = Some v" "u \<le> v"
    by blast
  with u(2) show ?case by (auto simp: pageRun_def)
qed

lemma cooldown_in_any_order:
  assumes "pg = pageRun H evs (injected_page t0)" and "list_all event_time_ok evs"
    and "list_all event_time_ok rest"
    and "clickedTimestamps pg (el_id el) = Some t" and "now - t < 5000"
  shows "clickElement H now el (pageRun H rest pg) = (0, pageRun H rest pg)"
proof -
  have ok: "stamps_ok pg" unfolding assms(1) by (rule stamps_run [OF assms(2) stamps_injected])
  have ok': "stamps_ok (pageRun H rest pg)" by (rule stamps_run [OF assms(3) ok])
  from stamp_grows_run [OF assms(3) ok assms(4), of H]
  obtain u where u: "clickedTimestamps (pageRun H rest pg) (el_id el) = Some u" "t \<le> u"
    by blast
  with assms(5) ok' have "inCooldown now el (pageRun H rest pg)"
    by (auto simp: inCooldown_def stamps_ok_def CLICK_COOLDOWN_MS_def)
  then show ?thesis by (rule clickElement_cooldown)
qed

section \<open>Properties of the session and its loops\<close>

lemma session_blocked: "session (pg\<lparr> state := blocked st \<rparr>) = session (pg\<lparr> state := st \<rparr>)"
  by (simp add: session_def blocked_def)

lemma clickElement_session:
  "session (snd (clickElement H now el pg)) = session pg
   \<and> loops (snd (clickElement H now el pg)) = loops pg"
proof (cases "inCooldown now el pg")
  case True
  then show ?thesis by (simp add: clickElement_def)
next
  case False
  obtain b st' where a: "isAcceptButton H el (state pg) = (b, st')"
    by (cases "isAcceptButton H el (state pg)")
  with isAcceptButton_state [of H el "state pg"]
  have "st' = state pg \<or> st' = blocked (state pg)" by simp
  with a False show ?thesis
    by (cases b) (auto simp: clickElement_def Let_def session_def blocked_def)
qed

lemma clickAll_session:
  "session (snd (clickAll H now els pg)) = session pg
   \<and> loops (snd (clickAll H now els pg)) = loops pg"
proof (induction els arbitrary: pg)
  case Nil
  show ?case by simp
next
  case (Cons e els)
  have "snd (clickAll H now (e # els) pg) = snd (clickAll H now els (snd (clickElement H now e pg)))"
    by (simp split: prod.splits)
  with Cons [of "snd (clickElement H now e pg)"] clickElement_session [of H now e pg]
  show ?case by (simp del: clickAll.simps)
qed

lemma performClick_session:
  "session (snd (performClick H now found pg)) = session pg
   \<and> loops (snd (performClick H now found pg)) = loops pg"
  by (simp add: performClick_def clickAll_session)

lemma loopCycle_session:
  "session (loopCycle kind dv pg) = session pg \<and> loops (loopCycle kind dv pg) = loops pg"
proof -
  have u: "session (updateTabNames n p) = session p \<and> loops (updateTabNames n p) = loops p" for n p
    by (simp add: updateTabNames_def session_def)
  have m: "session (markDone n p) = session p \<and> loops (markDone n p) = loops p" for n p
    by (simp add: markDone_def session_def)
  have p: "session (startPass n f q) = session q \<and> loops (startPass n f q) = loops q" for n f q
    by (simp add: startPass_def session_def)
  show ?thesis
    by (cases kind) (simp_all add: u m p Let_def split: option.splits)
qed

lemma passStep_session:
  "session (passStep H j seen pg) = session pg \<and> loops (passStep H j seen pg) = loops pg"
proof (cases "j < length (passes pg)")
  case False
  then show ?thesis by (simp add: passStep_def)
next
  case True
  obtain now els where p: "passes pg ! j = (now, els)" by (cases "passes pg ! j")
  show ?thesis
  proof (cases els)
    case Nil
    with True p show ?thesis by (simp add: passStep_def session_def)
  next
    case (Cons x rest)
    with True p clickElement_session [of H now "seen\<lparr> el_id := x \<rparr>" pg] show ?thesis
      by (simp add: passStep_def session_def)
  qed
qed

lemma loopBoundary_guard:
  assumes "k < length (loops pg)" and "loops pg ! k = (kind, g)"
  shows "loopGuard g pg \<Longrightarrow> session (loopBoundary k dv pg) = session pg
           \<and> loops (loopBoundary k dv pg) =
               (if cycleThrows kind dv then take k (loops pg) @ drop (Suc k) (loops pg)
                else loops pg)"
    and "\<not> loopGuard g pg \<Longrightarrow>
           loopBoundary k dv pg = pg\<lparr> loops := take k (loops pg) @ drop (Suc k) (loops pg) \<rparr>"
  using assms loopCycle_session [of kind dv pg]
  by (simp_all add: loopBoundary_def Let_def session_def)

lemma loopBoundary_sessionID:
  "sessionID (state (loopBoundary k dv pg)) = sessionID (state pg)"
proof (cases "k < length (loops pg)")
  case False
  then show ?thesis by (simp add: loopBoundary_def)
next
  case True
  obtain kind g where l: "loops pg ! k = (kind, g)" by (cases "loops pg ! k")
  show ?thesis
  proof (cases "loopGuard g pg")
    case True
    from loopBoundary_guard(1) [OF \<open>k < length (loops pg)\<close> l True, of dv]
    show ?thesis by (simp add: session_def)
  next
    case False
    from loopBoundary_guard(2) [OF \<open>k < length (loops pg)\<close> l False, of dv]
    show ?thesis by simp
  qed
qed

lemma sameConfig_banned: "sameConfig H cfg (pushBannedCommands cfg pg) = sameConfig H cfg pg"
  by (simp add: sameConfig_def pushBannedCommands_def updateBannedCommands_def split: option.splits)

lemma pushBanned_session:
  "sessionID (state (pushBannedCommands cfg pg)) = sessionID (state pg)"
  "loops (pushBannedCommands cfg pg) = loops pg"
  by (simp_all add: pushBannedCommands_def updateBannedCommands_def split: option.splits)

lemma start_same:
  "sameConfig H cfg pg \<Longrightarrow> autoAcceptStart H cfg now pg = pushBannedCommands cfg pg"
  by (simp add: autoAcceptStart_def Let_def sameConfig_banned)

lemma start_new:
  assumes "\<not> sameConfig H cfg pg"
  shows "sessionID (state (autoAcceptStart H cfg now pg)) = sessionID (state pg) + 1"
    and "isRunning (state (autoAcceptStart H cfg now pg))"
    and "currentMode (state (autoAcceptStart H cfg now pg)) = Some (ideOf H cfg)"
    and "isBackgroundMode (state (autoAcceptStart H cfg now pg)) = Some (cfg_isBackgroundMode cfg)"
    and "loops (autoAcceptStart H cfg now pg) =
           loops pg @ [(if cfg_isBackgroundMode cfg
                        then (if ideOf H cfg = js ''cursor'' then CursorLoop else AntigravityLoop)
                        else StaticLoop, sessionID (state pg) + 1)]"
  using assms
  by (simp_all add: autoAcceptStart_def Let_def sameConfig_banned pushBanned_session)

lemma start_sessionID:
  "sessionID (state (autoAcceptStart H cfg now pg)) =
     (if sameConfig H cfg pg then sessionID (state pg) else sessionID (state pg) + 1)"
  by (cases "sameConfig H cfg pg") (simp_all add: start_new start_same pushBanned_session)

lemma start_loops:
  "loops (autoAcceptStart H cfg now pg) =
     (if sameConfig H cfg pg then loops pg
      else loops pg @ [(if cfg_isBackgroundMode cfg
                        then (if ideOf H cfg = js ''cursor'' then CursorLoop else AntigravityLoop)
                        else StaticLoop, sessionID (state pg) + 1)])"
  by (cases "sameConfig H cfg pg") (simp_all add: start_new start_same pushBanned_session)

lemma start_sameConfig: "sameConfig H cfg (autoAcceptStart H cfg now pg)"
proof (cases "sameConfig H cfg pg")
  case True
  then show ?thesis
    by (simp add: start_same sameConfig_banned)
next
  case False
  then show ?thesis by (simp add: sameConfig_def start_new)
qed

lemma pageStep_sessionID: "sessionID (state pg) \<le> sessionID (state (pageStep H e pg))"
proof (cases e)
  case (PassStep j seen)
  with passStep_session [of H j seen pg] show ?thesis by (simp add: session_def)
qed (simp_all add: start_sessionID autoAcceptStop_def updateBannedCommands_def resetStats_def
        getAwayActions_def setFocusState_def loopBoundary_sessionID passThrows_def)

lemma pageRun_sessionID: "sessionID (state pg) \<le> sessionID (state (pageRun H evs pg))"
  unfolding pageRun_def
proof (induction evs arbitrary: pg)
  case Nil
  show ?case by simp
next
  case (Cons e evs)
  from Cons [of "pageStep H e pg"] pageStep_sessionID [of pg H e]
  show ?case by (simp del: pageStep.simps)
qed

lemma loops_ok_drop:
  assumes "loops_ok pg"
    and "loops pg' = take k (loops pg) @ drop (Suc k) (loops pg)"
    and "sessionID (state pg') = sessionID (state pg)"
  shows "loops_ok pg'"
proof -
  have s: "set (take k (loops pg) @ drop (Suc k) (loops pg)) \<subseteq> set (loops pg)"
    using set_take_subset [of k "loops pg"] set_drop_subset [of "Suc k" "loops pg"] by auto
  have "distinct (map snd (take k (loops pg)) @ map snd (drop (Suc k) (loops pg)))"
    using assms(1) distinct_take [of "map snd (loops pg)" k] distinct_drop [of "map snd (loops pg)" "Suc k"]
      set_take_disj_set_drop_if_distinct [of "map snd (loops pg)" k "Suc k"]
    by (simp add: loops_ok_def take_map drop_map)
  with s assms show ?thesis by (auto simp: loops_ok_def)
qed

lemma loops_ok_session:
  "loops_ok pg \<Longrightarrow> sessionID (state pg') = sessionID (state pg) \<Longrightarrow> loops pg' = loops pg \<Longrightarrow>
   loops_ok pg'"
  by (simp add: loops_ok_def)

lemma loops_ok_loopBoundary: "loops_ok pg \<Longrightarrow> loops_ok (loopBoundary k dv pg)"
proof (cases "k < length (loops pg)")
  case False
  assume "loops_ok pg" with False show ?thesis by (simp add: loopBoundary_def)
next
  case True
  assume ok: "loops_ok pg"
  obtain kind g where l: "loops pg ! k = (kind, g)" by (cases "loops pg ! k")
  have sid: "sessionID (state (loopBoundary k dv pg)) = sessionID (state pg)"
    by (rule loopBoundary_sessionID)
  show ?thesis
  proof (cases "loopGuard g pg")
    case g: True
    note b = loopBoundary_guard(1) [OF True l g, of dv]
    show ?thesis
    proof (cases "cycleThrows kind dv")
      case True
      with b have "loops (loopBoundary k dv pg) = take k (loops pg) @ drop (Suc k) (loops pg)"
        by simp
      from loops_ok_drop [OF ok this sid] show ?thesis .
    next
      case False
      with b have "loops (loopBoundary k dv pg) = loops pg" by simp
      from loops_ok_session [OF ok sid this] show ?thesis .
    qed
  next
    case g: False
    from loopBoundary_guard(2) [OF True l g, of dv]
    have "loops (loopBoundary k dv pg) = take k (loops pg) @ drop (Suc k) (loops pg)" by simp
    from loops_ok_drop [OF ok this sid] show ?thesis .
  qed
qed

lemma loops_ok_start: "loops_ok pg \<Longrightarrow> loops_ok (autoAcceptStart H cfg now pg)"
proof (cases "sameConfig H cfg pg")
  case True
  assume "loops_ok pg"
  with True show ?thesis
    by (auto simp: start_same pushBanned_session intro: loops_ok_session)
next
  case False
  assume "loops_ok pg"
  then show ?thesis
    unfolding loops_ok_def start_loops start_sessionID using False by fastforce
qed

lemma loops_ok_step: "loops_ok pg \<Longrightarrow> loops_ok (pageStep H e pg)"
proof (cases e)
  case (PassStep j seen)
  assume "loops_ok pg"
  with PassStep passStep_session [of H j seen pg] show ?thesis
    by (simp add: loops_ok_def session_def)
qed (simp_all add: loops_ok_start loops_ok_loopBoundary,
      simp_all add: loops_ok_def autoAcceptStop_def updateBannedCommands_def resetStats_def
        getAwayActions_def setFocusState_def passThrows_def)

lemma loops_ok_run: "loops_ok pg \<Longrightarrow> loops_ok (pageRun H evs pg)"
  unfolding pageRun_def
  by (induction evs arbitrary: pg) (simp_all add: loops_ok_step del: pageStep.simps)

lemma loops_ok_injected: "loops_ok (injected_page t)"
  by (simp add: loops_ok_def injected_page_def)

lemma pageStep_loops_grow:
  "(\<exists>k dv. e = LoopBoundary k dv) \<or> (\<exists>new. loops (pageStep H e pg) = loops pg @ new)"
  by (cases e)
     (simp_all add: start_loops autoAcceptStop_def updateBannedCommands_def resetStats_def
        getAwayActions_def setFocusState_def passStep_session passThrows_def)

lemma restarted_fields:
  "sessionID (state restarted_page) = 2"
  "isRunning (state restarted_page)"
  "loops restarted_page = [(CursorLoop, 1), (StaticLoop, 2)]"
  by (simp_all add: restarted_page_def pageRun_def autoAcceptStart_def sameConfig_def ide_fields
      cfg_fields pushBannedCommands_def updateBannedCommands_def
      injected_page_def initialState_def createDefaultStats_def Let_def)

lemma background_fields:
  "sessionID (state background_page) = 1"
  "isRunning (state background_page)"
  "loops background_page = [(CursorLoop, 1)]"
  by (simp_all add: background_page_def pageRun_def autoAcceptStart_def sameConfig_def ide_fields
      cfg_fields pushBannedCommands_def updateBannedCommands_def
      injected_page_def initialState_def createDefaultStats_def Let_def)

text \<open>
  C2. In every state the page can reach from its injection (by the entry points, the loop
  bodies arriving at the head of their \<open>while\<close>, and the steps of the click passes, in
  any order): no event lowers the session id, over one step or over any further run; a
  start that is not a no-op raises it by exactly one, sets \<open>isRunning\<close> and launches
  one loop body for the new id; a loop body launched for \<open>g\<close> that arrives at the head
  of its \<open>while\<close> returns when \<open>isRunning\<close> is false or the session id is not
  \<open>g\<close>, changing nothing else, and otherwise runs one more cycle, which changes
  neither \<open>isRunning\<close> nor the session id; after that cycle the loop body is still
  there, unless the cycle ends in an exception, which nothing catches and which ends the
  loop body (the static loop has no such cycle); no other event ends a loop body: the
  entry points and the passes leave the loop bodies as they are, so an entry point cancels
  a loop body through \<open>isRunning\<close> and the session id only; and no two loop bodies are
  launched for the same id, none for an id above the current one, so at most one of them
  passes its guard.
\<close>

theorem C2_session_id_cancels_loops:
  assumes pg: "pg = pageRun H evs (injected_page t)"
  shows
    "sessionID (state pg) \<le> sessionID (state (pageStep H e pg))
   \<and> sessionID (state pg) \<le> sessionID (state (pageRun H rest pg))
   \<and> (\<not> sameConfig H cfg pg \<longrightarrow>
        sessionID (state (autoAcceptStart H cfg now pg)) = sessionID (state pg) + 1
        \<and> isRunning (state (autoAcceptStart H cfg now pg))
        \<and> (\<exists>kind. loops (autoAcceptStart H cfg now pg) = loops pg @ [(kind, sessionID (state pg) + 1)]))
   \<and> (\<forall>k kind g dv. k < length (loops pg) \<and> loops pg ! k = (kind, g) \<longrightarrow>
        (if isRunning (state pg) \<and> sessionID (state pg) = g
         then isRunning (state (loopBoundary k dv pg))
            \<and> sessionID (state (loopBoundary k dv pg)) = g
            \<and> loops (loopBoundary k dv pg) =
                (if cycleThrows kind dv then take k (loops pg) @ drop (Suc k) (loops pg)
                 else loops pg)
         else loopBoundary k dv pg = pg\<lparr> loops := take k (loops pg) @ drop (Suc k) (loops pg) \<rparr>))
   \<and> ((\<exists>k dv. e = LoopBoundary k dv) \<or> (\<exists>new. loops (pageStep H e pg) = loops pg @ new))
   \<and> (\<forall>l\<in>set (loops pg). snd l \<le> sessionID (state pg))
   \<and> distinct (map snd (loops pg))"
proof -
  have ok: "loops_ok pg" unfolding pg by (rule loops_ok_run [OF loops_ok_injected])
  have 3: "\<not> sameConfig H cfg pg \<longrightarrow>
        sessionID (state (autoAcceptStart H cfg now pg)) = sessionID (state pg) + 1
        \<and> isRunning (state (autoAcceptStart H cfg now pg))
        \<and> (\<exists>kind. loops (autoAcceptStart H cfg now pg) = loops pg @ [(kind, sessionID (state pg) + 1)])"
    by (simp add: start_new)
  have 4: "\<forall>k kind g dv. k < length (loops pg) \<and> loops pg ! k = (kind, g) \<longrightarrow>
        (if isRunning (state pg) \<and> sessionID (state pg) = g
         then isRunning (state (loopBoundary k dv pg))
            \<and> sessionID (state (loopBoundary k dv pg)) = g
            \<and> loops (loopBoundary k dv pg) =
                (if cycleThrows kind dv then take k (loops pg) @ drop (Suc k) (loops pg)
                 else loops pg)
         else loopBoundary k dv pg = pg\<lparr> loops := take k (loops pg) @ drop (Suc k) (loops pg) \<rparr>)"
  proof (intro allI impI)
    fix k kind g dv
    assume a: "k < length (loops pg) \<and> loops pg ! k = (kind, g)"
    show "if isRunning (state pg) \<and> sessionID (state pg) = g
         then isRunning (state (loopBoundary k dv pg))
            \<and> sessionID (state (loopBoundary k dv pg)) = g
            \<and> loops (loopBoundary k dv pg) =
                (if cycleThrows kind dv then take k (loops pg) @ drop (Suc k) (loops pg)
                 else loops pg)
         else loopBoundary k dv pg = pg\<lparr> loops := take k (loops pg) @ drop (Suc k) (loops pg) \<rparr>"
    proof (cases "loopGuard g pg")
      case True
      from loopBoundary_guard(1) [OF conjunct1 [OF a] conjunct2 [OF a] True, of dv] True
      show ?thesis by (simp add: session_def loopGuard_def)
    next
      case False
      from loopBoundary_guard(2) [OF conjunct1 [OF a] conjunct2 [OF a] False, of dv] False
      show ?thesis by (auto simp: loopGuard_def)
    qed
  qed
  from ok 3 4 pageStep_sessionID [of pg H e] pageRun_sessionID [of pg H rest]
    pageStep_loops_grow [of e H pg]
  show ?thesis unfolding loops_ok_def by blast
qed

theorem C2_session_id_cancels_loops_witness:
  "sessionID (state restarted_page) = 2
   \<and> loops restarted_page = [(CursorLoop, 1), (StaticLoop, 2)]
   \<and> loops (loopBoundary 0 empty_view restarted_page) = [(StaticLoop, 2)]
   \<and> loops (loopBoundary 1 empty_view restarted_page) = loops restarted_page
   \<and> loops (loopBoundary 1 empty_view (autoAcceptStop restarted_page)) = [(CursorLoop, 1)]
   \<and> sessionID (state (autoAcceptStart demo_host background_config 40 restarted_page)) = 3
   \<and> loops background_page = [(CursorLoop, 1)]
   \<and> loops (loopBoundary 0 empty_view background_page) = [(CursorLoop, 1)]
   \<and> cycleThrows CursorLoop throwing_view
   \<and> loops (loopBoundary 0 throwing_view background_page) = []
   \<and> isRunning (state (loopBoundary 0 throwing_view background_page))
   \<and> sessionID (state (loopBoundary 0 throwing_view background_page)) = 1"
proof -
  note f = restarted_fields
  note g = background_fields
  have r: "restarted_page =
      pageRun demo_host [Start background_config 10, Start simple_config 20] (injected_page 0)"
    by (rule restarted_page_def)
  have ns: "\<not> sameConfig demo_host background_config restarted_page"
    by (simp add: sameConfig_def restarted_page_def pageRun_def autoAcceptStart_def ide_fields
      cfg_fields pushBannedCommands_def updateBannedCommands_def
      injected_page_def initialState_def createDefaultStats_def Let_def)
  have stop: "autoAcceptStop restarted_page =
      pageRun demo_host [Start background_config 10, Start simple_config 20, Stop] (injected_page 0)"
    by (simp add: restarted_page_def pageRun_def)
  have sf: "loops (autoAcceptStop restarted_page) = [(CursorLoop, 1), (StaticLoop, 2)]"
    "\<not> isRunning (state (autoAcceptStop restarted_page))"
    by (simp_all add: autoAcceptStop_def f)
  have th: "cycleThrows CursorLoop throwing_view" "\<not> cycleThrows CursorLoop empty_view"
    "\<not> cycleThrows StaticLoop empty_view"
    by (simp_all add: cycleThrows_def throwing_view_def empty_view_def)
  have head: "k < length (loops pg) \<and> loops pg ! k = (kind, g) \<longrightarrow>
        (if isRunning (state pg) \<and> sessionID (state pg) = g
         then isRunning (state (loopBoundary k dv pg))
            \<and> sessionID (state (loopBoundary k dv pg)) = g
            \<and> loops (loopBoundary k dv pg) =
                (if cycleThrows kind dv then take k (loops pg) @ drop (Suc k) (loops pg)
                 else loops pg)
         else loopBoundary k dv pg = pg\<lparr> loops := take k (loops pg) @ drop (Suc k) (loops pg) \<rparr>)"
    if "pg = pageRun demo_host evs (injected_page 0)" for pg evs k kind g dv
    using C2_session_id_cancels_loops
      [OF that, where e = Stop and cfg = background_config and now = 40 and rest = "[]"]
    by blast
  from C2_session_id_cancels_loops
    [OF r, where e = Stop and cfg = background_config and now = 40 and rest = "[]"] ns f
  have a: "sessionID (state (autoAcceptStart demo_host background_config 40 restarted_page)) = 3"
    by simp
  from head [OF r, of 0 CursorLoop 1 empty_view] f
  have c: "loops (loopBoundary 0 empty_view restarted_page) = [(StaticLoop, 2)]"
    by simp
  from head [OF r, of 1 StaticLoop 2 empty_view] f th
  have d: "loops (loopBoundary 1 empty_view restarted_page) = loops restarted_page"
    by simp
  from head [OF stop, of 1 StaticLoop 2 empty_view] sf
  have e: "loops (loopBoundary 1 empty_view (autoAcceptStop restarted_page)) = [(CursorLoop, 1)]"
    by simp
  from head [OF background_page_def, of 0 CursorLoop 1 empty_view] g th
  have h: "loops (loopBoundary 0 empty_view background_page) = [(CursorLoop, 1)]"
    by simp
  from head [OF background_page_def, of 0 CursorLoop 1 throwing_view] g th
  have i: "loops (loopBoundary 0 throwing_view background_page) = []
     \<and> isRunning (state (loopBoundary 0 throwing_view background_page))
     \<and> sessionID (state (loopBoundary 0 throwing_view background_page)) = 1"
    by simp
  from a c d e f g h i th show ?thesis by simp
qed

text \<open>
  C4. When the agent is running and \<open>start\<close> is called with the mode and the
  background flag it is running with, the session id stays, no loop body is launched, the
  agent keeps running, and the call does nothing but store the banned list of the
  configuration. In particular a second \<open>start\<close> with the configuration of the first
  leaves the page as the first left it.
\<close>

theorem C4_same_config_start_is_noop:
  "(sameConfig H cfg pg \<longrightarrow>
      sessionID (state (autoAcceptStart H cfg now pg)) = sessionID (state pg)
      \<and> loops (autoAcceptStart H cfg now pg) = loops pg
      \<and> isRunning (state (autoAcceptStart H cfg now pg))
      \<and> autoAcceptStart H cfg now pg = pushBannedCommands cfg pg)
   \<and> sessionID (state (autoAcceptStart H cfg later (autoAcceptStart H cfg now pg)))
        = sessionID (state (autoAcceptStart H cfg now pg))
   \<and> loops (autoAcceptStart H cfg later (autoAcceptStart H cfg now pg))
        = loops (autoAcceptStart H cfg now pg)
   \<and> autoAcceptStart H cfg later (autoAcceptStart H cfg now pg) = autoAcceptStart H cfg now pg"
proof -
  have 1: "sameConfig H cfg pg \<longrightarrow>
      sessionID (state (autoAcceptStart H cfg now pg)) = sessionID (state pg)
      \<and> loops (autoAcceptStart H cfg now pg) = loops pg
      \<and> isRunning (state (autoAcceptStart H cfg now pg))
      \<and> autoAcceptStart H cfg now pg = pushBannedCommands cfg pg"
    using sameConfig_banned [of H cfg pg]
    by (auto simp: start_same pushBanned_session sameConfig_def)
  have idem: "pushBannedCommands cfg (autoAcceptStart H cfg now pg) = autoAcceptStart H cfg now pg"
    by (cases "sameConfig H cfg pg")
       (auto simp: autoAcceptStart_def Let_def sameConfig_banned pushBannedCommands_def
          updateBannedCommands_def split: option.splits)
  have 2: "autoAcceptStart H cfg later (autoAcceptStart H cfg now pg) = autoAcceptStart H cfg now pg"
    using start_same [OF start_sameConfig, of H cfg later now pg] idem by simp
  from 2 have 3: "sessionID (state (autoAcceptStart H cfg later (autoAcceptStart H cfg now pg)))
        = sessionID (state (autoAcceptStart H cfg now pg))"
    "loops (autoAcceptStart H cfg later (autoAcceptStart H cfg now pg))
        = loops (autoAcceptStart H cfg now pg)"
    by simp_all
  from 1 2 3 show ?thesis by blast
qed

theorem C4_same_config_start_is_noop_witness:
  "sameConfig demo_host simple_config restarted_page
   \<and> sessionID (state (autoAcceptStart demo_host simple_config 50 restarted_page)) = 2
   \<and> loops (autoAcceptStart demo_host simple_config 50 restarted_page) = [(CursorLoop, 1), (StaticLoop, 2)]
   \<and> autoAcceptStart demo_host simple_config 50 restarted_page = restarted_page"
proof -
  have s: "sameConfig demo_host simple_config restarted_page"
    by (simp add: sameConfig_def restarted_page_def pageRun_def autoAcceptStart_def ide_fields
      cfg_fields pushBannedCommands_def updateBannedCommands_def
      injected_page_def initialState_def createDefaultStats_def Let_def)
  have t: "restarted_page = autoAcceptStart demo_host simple_config 20
      (autoAcceptStart demo_host background_config 10 (injected_page 0))"
    by (simp add: restarted_page_def pageRun_def)
  from C4_same_config_start_is_noop
    [where H = demo_host and cfg = simple_config
       and pg = "autoAcceptStart demo_host background_config 10 (injected_page 0)"
       and now = 20 and later = 50]
  have "autoAcceptStart demo_host simple_config 50 restarted_page = restarted_page"
    unfolding t by blast
  with s restarted_fields show ?thesis by simp
qed

section \<open>Properties of the instance lock\<close>

text \<open>
  What the callback does with a lock record whose owner string is not empty and differs
  from \<open>globalContext.extension.id\<close>: with a heartbeat younger than 15 s it writes
  nothing and does not sync; with a heartbeat of 15 s or more, or none, it writes its
  identifier and the time and goes on to \<open>syncSessions\<close>.
\<close>

lemma tick_foreign_lock:
  assumes "isEnabled w"
    and "gs_strings gs (lockKey H w) = Some a" and "a \<noteq> []" and "a \<noteq> extension_id w"
  shows "(gs_numbers gs (pingKey H w) = Some p \<and> p \<noteq> 0 \<and> now - p < 15000 \<longrightarrow>
            tick H now (gs, w) = (gs, w\<lparr> isLockedOut := True \<rparr>))
       \<and> (gs_numbers gs (pingKey H w) = None
            \<or> (gs_numbers gs (pingKey H w) = Some p \<and> 15000 \<le> now - p) \<longrightarrow>
            tick H now (gs, w) =
              (gs\<lparr> gs_strings := (gs_strings gs)(lockKey H w \<mapsto> extension_id w),
                   gs_numbers := (gs_numbers gs)(pingKey H w \<mapsto> now) \<rparr>,
               syncSessions (w\<lparr> isLockedOut := False \<rparr>)))"
  using assms by (auto simp: tick_def lockedByOther_def)

lemma tick_same_extension:
  assumes "isEnabled w" and "gs_strings gs (lockKey H w) = Some (extension_id w)"
  shows "tick H now (gs, w) =
           (gs\<lparr> gs_strings := (gs_strings gs)(lockKey H w \<mapsto> extension_id w),
                gs_numbers := (gs_numbers gs)(pingKey H w \<mapsto> now) \<rparr>,
            syncSessions (w\<lparr> isLockedOut := False \<rparr>))"
  using assms by (simp add: tick_def lockedByOther_def)

text \<open>
  Among windows of one extension the standby branch is never taken: as long as the owner
  strings in the store were written by windows with the extension identifier \<open>e\<close>,
  a window with that identifier is not locked out, and what it writes is again \<open>e\<close>.
\<close>

lemma same_extension_never_locked:
  assumes "owned_by e gs" and "extension_id w = e"
  shows "\<not> lockedByOther H now gs w" and "owned_by e (fst (tick H now (gs, w)))"
  using assms by (auto simp: owned_by_def lockedByOther_def tick_def split: option.splits)

lemmas lock_defs = tick_def lockedByOther_def syncSessions_def lockKey_def pingKey_def
  window_A_def window_B_def window_C_def empty_store_def demo_defs js_def

text \<open>
  C9 fails on the code for two windows of the same extension. The owner the callback
  compares with, and writes, is the identifier of the extension, which is the same in
  every window; \<open>INSTANCE_ID\<close> is never read. Window A takes the lock at time 100000.
  Window B, another instance, runs its callback 5 s later and finds a lock record written
  by A with a heartbeat 5 s old: it is not put on standby, it syncs, and it overwrites
  the heartbeat.
\<close>

theorem C9_second_window_takes_over:
  "INSTANCE_ID window_B \<noteq> INSTANCE_ID window_A
   \<and> gs_strings (fst (tick demo_host 100000 (empty_store, window_A))) (lockKey demo_host window_B)
       = Some (extension_id window_A)
   \<and> gs_numbers (fst (tick demo_host 100000 (empty_store, window_A))) (pingKey demo_host window_B) = Some 100000
   \<and> syncs (snd (tick demo_host 100000 (empty_store, window_A))) = 1
   \<and> isLockedOut (snd (tick demo_host 105000 (fst (tick demo_host 100000 (empty_store, window_A)), window_B))) = False
   \<and> syncs (snd (tick demo_host 105000 (fst (tick demo_host 100000 (empty_store, window_A)), window_B))) = 1
   \<and> gs_numbers (fst (tick demo_host 105000 (fst (tick demo_host 100000 (empty_store, window_A)), window_B)))
        (pingKey demo_host window_B) = Some 105000"
  by (simp add: lock_defs)

text \<open>Only a window with another extension identifier is put on standby, and takes over
  once the heartbeat is 15 s old.\<close>

lemma other_extension_stands_by:
  "isLockedOut (snd (tick demo_host 105000 (fst (tick demo_host 100000 (empty_store, window_A)), window_C)))
   \<and> syncs (snd (tick demo_host 105000 (fst (tick demo_host 100000 (empty_store, window_A)), window_C))) = 0
   \<and> fst (tick demo_host 105000 (fst (tick demo_host 100000 (empty_store, window_A)), window_C))
       = fst (tick demo_host 100000 (empty_store, window_A))
   \<and> syncs (snd (tick demo_host 115000 (fst (tick demo_host 100000 (empty_store, window_A)), window_C))) = 1"
  by (simp add: lock_defs)

section \<open>Properties of the statistics\<close>

lemma categorizeClick_keyword:
  "categorizeClick H t = (if hasTerminalKeyword H t then TERMINAL_COMMAND else FILE_EDIT)"
  by (simp add: categorizeClick_def TERMINAL_KEYWORDS_def hasTerminalKeyword_def)

lemma trackClick_counts:
  "clicksThisSession (snd (trackClick H t st)) = clicksThisSession st + 1"
  "terminalCommandsThisSession (snd (trackClick H t st)) =
     terminalCommandsThisSession st + (if hasTerminalKeyword H t then 1 else 0)"
  "fileEditsThisSession (snd (trackClick H t st)) =
     fileEditsThisSession st + (if hasTerminalKeyword H t then 0 else 1)"
  by (simp_all add: trackClick_def Let_def categorizeClick_keyword)

lemma trackClick_balanced: "balanced st \<Longrightarrow> balanced (snd (trackClick H t st))"
  by (simp add: balanced_def trackClick_counts)

lemma trackClicks_balanced: "balanced st \<Longrightarrow> balanced (trackClicks H texts st)"
  unfolding trackClicks_def
  by (induction texts arbitrary: st) (simp_all add: trackClick_balanced)

lemma balanced_default: "balanced createDefaultStats"
  by (simp add: balanced_def createDefaultStats_def)

text \<open>
  C10. Starting from the default statistics, after any sequence of \<open>trackClick\<close> calls
  the click counter equals the sum of the file-edit and terminal-command counters; and
  each single call, from any statistics record, adds one to the click counter and one to
  exactly one of the two category counters: the terminal-command counter when the
  lowercased text contains run, execute, command or terminal, the file-edit counter
  otherwise.
\<close>

theorem C10_clicks_are_edits_plus_commands:
  "clicksThisSession (trackClicks H texts createDefaultStats) =
     fileEditsThisSession (trackClicks H texts createDefaultStats)
     + terminalCommandsThisSession (trackClicks H texts createDefaultStats)
   \<and> clicksThisSession (snd (trackClick H t st)) = clicksThisSession st + 1
   \<and> (if hasTerminalKeyword H t
      then terminalCommandsThisSession (snd (trackClick H t st)) = terminalCommandsThisSession st + 1
         \<and> fileEditsThisSession (snd (trackClick H t st)) = fileEditsThisSession st
      else fileEditsThisSession (snd (trackClick H t st)) = fileEditsThisSession st + 1
         \<and> terminalCommandsThisSession (snd (trackClick H t st)) = terminalCommandsThisSession st)"
proof -
  have "balanced (trackClicks H texts createDefaultStats)"
    by (rule trackClicks_balanced [OF balanced_default])
  then show ?thesis
    by (simp add: balanced_def trackClick_counts)
qed

theorem C10_clicks_are_edits_plus_commands_witness:
  "clicksThisSession (trackClicks demo_host [js ''Run command'', js ''Accept all''] createDefaultStats) = 2
   \<and> fileEditsThisSession (trackClicks demo_host [js ''Run command'', js ''Accept all''] createDefaultStats) = 1
   \<and> terminalCommandsThisSession (trackClicks demo_host [js ''Run command'', js ''Accept all''] createDefaultStats) = 1
   \<and> hasTerminalKeyword demo_host (js ''Run command'')
   \<and> terminalCommandsThisSession (snd (trackClick demo_host (js ''Run command'') createDefaultStats)) = 1"
  using C10_clicks_are_edits_plus_commands
    [of demo_host "[js ''Run command'', js ''Accept all'']" "js ''Run command''" createDefaultStats]
  by (simp add: trackClicks_def trackClick_def categorizeClick_def TERMINAL_KEYWORDS_def
      hasTerminalKeyword_def demo_defs js_def createDefaultStats_def Let_def)

end
